theory Spec2Isabelle
  imports Complex_Main "HOL-Library.Word" "HOL-Library.Signed_Division" "HOL-Library.Multiset"
begin

unbundle bit_operations_syntax

section \<open>The board\<close>

text \<open>
  \<^verbatim>\<open>class board\<close> holds \<^verbatim>\<open>std::array<std::array<int, 2>, 2> tile\<close>. The four cells are
  the fields \<open>t00\<close>, \<open>t01\<close>, \<open>t10\<close>, \<open>t11\<close> (\<^verbatim>\<open>tile[i][j]\<close> is \<open>tij\<close>). A cell is a C++
  \<^verbatim>\<open>int\<close>; it is modelled as a mathematical integer, and the one place where the source
  leaves \<^verbatim>\<open>int\<close> arithmetic (the unsigned mask of the reward) is modelled on 32-bit words.
  The default constructor value-initialises every cell to 0.
\<close>

datatype board = Board (t00: int) (t01: int) (t10: int) (t11: int)

definition board_empty :: board where
  "board_empty = Board 0 0 0 0"

text \<open>The cell ranks of a board, row-major.\<close>

definition cells :: "board \<Rightarrow> int list" where
  "cells b = [t00 b, t01 b, t10 b, t11 b]"

text \<open>A rank in the range of one nibble of the packed encoding.\<close>

definition rank_ok :: "int \<Rightarrow> bool" where
  "rank_ok c \<longleftrightarrow> 0 \<le> c \<and> c \<le> 15"

definition valid_board :: "board \<Rightarrow> bool" where
  "valid_board b \<longleftrightarrow> rank_ok (t00 b) \<and> rank_ok (t01 b) \<and> rank_ok (t10 b) \<and> rank_ok (t11 b)"

text \<open>\<^verbatim>\<open>operator int() const\<close>: the packed encoding.\<close>

definition encode :: "board \<Rightarrow> int" where
  "encode b = t00 b * 4096 + t01 b * 256 + t10 b * 16 + t11 b"

text \<open>\<^verbatim>\<open>board& operator=(int v)\<close> (and with it the constructor \<^verbatim>\<open>board(int v)\<close>).\<close>

definition decode :: "int \<Rightarrow> board" where
  "decode v = Board (drop_bit 12 v AND 15) (drop_bit 8 v AND 15) (drop_bit 4 v AND 15) (v AND 15)"

section \<open>Symmetries\<close>

text \<open>\<^verbatim>\<open>std::swap(tile[0][1], tile[1][0])\<close>\<close>

definition transpose_board :: "board \<Rightarrow> board" where
  "transpose_board b = Board (t00 b) (t10 b) (t01 b) (t11 b)"

text \<open>\<^verbatim>\<open>std::swap(tile[0][0], tile[0][1]); std::swap(tile[1][0], tile[1][1])\<close>\<close>

definition mirror :: "board \<Rightarrow> board" where
  "mirror b = Board (t01 b) (t00 b) (t11 b) (t10 b)"

text \<open>\<^verbatim>\<open>std::swap(tile[0][0], tile[1][0]); std::swap(tile[0][1], tile[1][1])\<close>\<close>

definition flip_board :: "board \<Rightarrow> board" where
  "flip_board b = Board (t10 b) (t11 b) (t00 b) (t01 b)"

text \<open>
  \<^verbatim>\<open>switch (((r % 4) + 4) % 4)\<close>: the C++ remainder truncates towards zero (\<open>smod\<close>).
  Case 1 is \<^verbatim>\<open>transpose(); mirror()\<close>, case 2 \<^verbatim>\<open>mirror(); flip()\<close>, case 3
  \<^verbatim>\<open>transpose(); flip()\<close>; case 0 and the default do nothing.
\<close>

definition rotate_board :: "board \<Rightarrow> int \<Rightarrow> board" where
  "rotate_board b r =
     (let k = ((r smod 4) + 4) smod 4 in
      if k = 1 then mirror (transpose_board b)
      else if k = 2 then flip_board (mirror b)
      else if k = 3 then flip_board (transpose_board b)
      else b)"

text \<open>\<^verbatim>\<open>int iso = ((i % 8) + 8) % 8; if (iso > 4) mirror(); rotate(iso);\<close>\<close>

definition isomorphic :: "board \<Rightarrow> int \<Rightarrow> board" where
  "isomorphic b i =
     (let iso = ((i smod 8) + 8) smod 8 in
      rotate_board (if iso > 4 then mirror b else b) iso)"

section \<open>Moves\<close>

text \<open>
  The body of the loop \<^verbatim>\<open>for (auto& row : tile)\<close> of \<^verbatim>\<open>left()\<close>, on one row
  \<open>(row[0], row[1])\<close>: the new row and what the row adds to \<^verbatim>\<open>score\<close>. The first test is
  \<^verbatim>\<open>row[0] == 0\<close> (slide, nothing added), the second \<^verbatim>\<open>row[0] == row[1]\<close> (merge); a row
  that takes neither branch is left alone. The addend \<^verbatim>\<open>(1 << row[0]) & -2u\<close> is unsigned:
  a 32-bit word, shifted by the incremented rank and masked with \<open>-2\<close> (\<open>tile_value\<close>).
\<close>

definition tile_value :: "int \<Rightarrow> 32 word" where
  "tile_value k = push_bit (nat k) 1 AND (- 2)"

definition left_row :: "int \<times> int \<Rightarrow> (int \<times> int) \<times> 32 word" where
  "left_row row =
     (if fst row = 0 then ((snd row, 0), 0)
      else if fst row = snd row then ((fst row + 1, 0), tile_value (fst row + 1))
      else (row, 0))"

text \<open>
  \<^verbatim>\<open>int left()\<close>: \<^verbatim>\<open>now\<close> is the encoding on entry, both rows are processed in order,
  \<^verbatim>\<open>score += ...\<close> adds an unsigned value to an \<^verbatim>\<open>int\<close> (the sum is taken on 32 bits and
  read back as signed), and the result is \<^verbatim>\<open>int(*this) != now ? score : -1\<close>. The model
  returns the result together with the board the call leaves behind.
\<close>

definition left :: "board \<Rightarrow> int \<times> board" where
  "left b =
     (let now = encode b;
          (row0, s0) = left_row (t00 b, t01 b);
          (row1, s1) = left_row (t10 b, t11 b);
          score = (0 :: 32 word) + s0 + s1;
          b' = Board (fst row0) (snd row0) (fst row1) (snd row1)
      in (if encode b' \<noteq> now then sint score else - 1, b'))"

text \<open>\<^verbatim>\<open>mirror(); int score = left(); mirror(); return score;\<close>\<close>

definition right :: "board \<Rightarrow> int \<times> board" where
  "right b = (let (score, b') = left (mirror b) in (score, mirror b'))"

text \<open>\<^verbatim>\<open>rotate(1); int score = right(); rotate(-1); return score;\<close>\<close>

definition up :: "board \<Rightarrow> int \<times> board" where
  "up b = (let (score, b') = right (rotate_board b 1) in (score, rotate_board b' (- 1)))"

text \<open>\<^verbatim>\<open>rotate(1); int score = left(); rotate(-1); return score;\<close>\<close>

definition down :: "board \<Rightarrow> int \<times> board" where
  "down b = (let (score, b') = left (rotate_board b 1) in (score, rotate_board b' (- 1)))"

text \<open>\<^verbatim>\<open>int move(const int& opcode)\<close>: the \<^verbatim>\<open>switch\<close> with its \<^verbatim>\<open>default: return -1\<close>.\<close>

definition move :: "board \<Rightarrow> int \<Rightarrow> int \<times> board" where
  "move b opcode =
     (if opcode = 0 then up b
      else if opcode = 1 then right b
      else if opcode = 2 then down b
      else if opcode = 3 then left b
      else (- 1, b))"


text \<open>
  \<^verbatim>\<open>void next()\<close>: the empty cells are collected in row-major order; with none the call
  returns at once. Otherwise \<^verbatim>\<open>std::rand()\<close> is called twice, first for the position
  and then for the rank (1, or 2 when the second value is a multiple of 10). The values
  that \<^verbatim>\<open>std::rand()\<close> returns are the sequence \<open>rnd\<close>; \<open>k\<close> counts the calls made so
  far and is returned updated.
\<close>

fun set_tile :: "board \<Rightarrow> nat \<Rightarrow> nat \<Rightarrow> int \<Rightarrow> board" where
  "set_tile (Board a b c d) i j v =
     (if i = 0 then (if j = 0 then Board v b c d else Board a v c d)
      else (if j = 0 then Board a b v d else Board a b c v))"

definition next_board :: "(nat \<Rightarrow> nat) \<Rightarrow> nat \<Rightarrow> board \<Rightarrow> board \<times> nat" where
  "next_board rnd k b =
     (let space = (if t00 b = 0 then [0] else []) @ (if t01 b = 0 then [1] else [])
                  @ (if t10 b = 0 then [2] else []) @ (if t11 b = 0 then [3::nat] else []);
          num = length space
      in if num = 0 then (b, k)
         else (let pos = space ! (rnd k mod num);
                   pop = (if rnd (k + 1) mod 10 \<noteq> 0 then 1 else 2)
               in (set_tile b (pos div 2) (pos mod 2) pop, k + 2)))"

section \<open>The value table\<close>

text \<open>
  \<^verbatim>\<open>float weight[6 * 6 * 6 * 6] = { 0 }\<close> is a list of 1296 entries. The entries are
  \<^verbatim>\<open>float\<close>s; the model leaves their type \<open>'f\<close> and its arithmetic open: \<open>+\<close>, \<open>-\<close>,
  \<open>*\<close>, \<open>0\<close> and \<open><\<close> are the operations of \<open>'f\<close>, with no law assumed of them in
  the definitions, so that what is proved holds of any arithmetic, rounding included.
  A theorem that needs a law of the arithmetic states it as a hypothesis.

  \<^verbatim>\<open>V(b)\<close> is a reference to
  \<^verbatim>\<open>weight[(b[0][0] * 6 * 6 * 6) + (b[0][1] * 6 * 6) + (b[1][0] * 6) + (b[1][1])]\<close>.
  The source does not check the index; an access outside the array is undefined
  behaviour and has the value \<open>None\<close> in the model. \<open>V_get\<close> reads through the
  reference, \<open>V_add\<close> is \<^verbatim>\<open>V(b) += upd\<close>.
\<close>

definition weight_init :: "'f::zero list" where
  "weight_init = replicate (6 * 6 * 6 * 6) 0"

definition V_index :: "board \<Rightarrow> int" where
  "V_index b = (t00 b * 6 * 6 * 6) + (t01 b * 6 * 6) + (t10 b * 6) + (t11 b)"

definition V_get :: "'f list \<Rightarrow> board \<Rightarrow> 'f option" where
  "V_get w b =
     (let i = V_index b in if 0 \<le> i \<and> i < int (length w) then Some (w ! nat i) else None)"

definition V_add :: "'f::plus list \<Rightarrow> board \<Rightarrow> 'f \<Rightarrow> 'f list option" where
  "V_add w b upd =
     (let i = V_index b
      in if 0 \<le> i \<and> i < int (length w) then Some (w[nat i := w ! nat i + upd]) else None)"

text \<open>The boards the table is made for: every rank a base-6 digit.\<close>

definition in_table :: "board \<Rightarrow> bool" where
  "in_table b \<longleftrightarrow> (\<forall>c \<in> set (cells b). 0 \<le> c \<and> c \<le> 5)"

section \<open>The learning controller\<close>

text \<open>
  The local variables of \<^verbatim>\<open>main\<close> that configure the run: \<^verbatim>\<open>float alpha = 0.01\<close>,
  \<^verbatim>\<open>int isomorphic = 8\<close>, \<^verbatim>\<open>bool forward = true\<close>, \<^verbatim>\<open>bool backward = false\<close>. With
  them go the two constants of \<^verbatim>\<open>float\<close> the code uses: the conversion of an \<^verbatim>\<open>int\<close>
  to \<^verbatim>\<open>float\<close> (in \<^verbatim>\<open>r[op] + V(a[op])\<close> and \<^verbatim>\<open>v + r\<close>) and
  \<^verbatim>\<open>-std::numeric_limits<float>::max()\<close>.
\<close>

record 'f env =
  alpha :: 'f
  isomorphic_count :: int
  forward :: bool
  backward :: bool
  float_of_int :: "int \<Rightarrow> 'f"
  lowest :: 'f

text \<open>
  \<^verbatim>\<open>train_isomorphic\<close>: for \<open>i\<close> from 0 below \<^verbatim>\<open>isomorphic\<close>, the variant
  \<^verbatim>\<open>iso = b; iso.isomorphic(i)\<close> is looked up in \<^verbatim>\<open>trained\<close> (a \<^verbatim>\<open>std::vector<int>\<close>:
  \<^verbatim>\<open>std::find\<close> compares the packed encodings); a variant not found is appended and
  \<^verbatim>\<open>V(iso) += upd\<close>.
\<close>

fun train_loop :: "board \<Rightarrow> 'f::plus \<Rightarrow> int list \<Rightarrow> int list \<Rightarrow> 'f list \<Rightarrow> 'f list option" where
  "train_loop b upd [] trained w = Some w"
| "train_loop b upd (i # rest) trained w =
     (let iso = isomorphic b i
      in if encode iso \<notin> set trained
         then (case V_add w iso upd of
                 None \<Rightarrow> None
               | Some w' \<Rightarrow> train_loop b upd rest (trained @ [encode iso]) w')
         else train_loop b upd rest trained w)"

definition train_isomorphic :: "'f::plus env \<Rightarrow> 'f list \<Rightarrow> board \<Rightarrow> 'f \<Rightarrow> 'f list option" where
  "train_isomorphic env w b upd = train_loop b upd [0 .. isomorphic_count env - 1] [] w"

text \<open>
  The evaluation of a before-state \<open>b\<close>: \<^verbatim>\<open>int x = 0; board a[4] = { b, b, b, b };\<close>
  \<^verbatim>\<open>int r[4] = { -1 }; float v[4] = { -std::numeric_limits<float>::max() };\<close> (an
  initialiser with one value sets the first element, the others are zero), then for
  \<^verbatim>\<open>op\<close> from 0 to 3 the body \<open>evaluate_op\<close>:
  \<^verbatim>\<open>r[op] = a[op].move(op); if (r[op] != -1) { v[op] = r[op] + V(a[op]); if (v[op] > v[x]) x = op; }\<close>
\<close>

record 'f evals =
  ev_a :: "board list"
  ev_r :: "int list"
  ev_v :: "'f list"
  ev_x :: nat

definition evaluate_op :: "'f::{plus,ord} env \<Rightarrow> 'f list \<Rightarrow> nat \<Rightarrow> 'f evals \<Rightarrow> 'f evals option" where
  "evaluate_op env w op s =
     (let (rw, a') = move (ev_a s ! op) (int op);
          s1 = s\<lparr>ev_a := (ev_a s)[op := a'], ev_r := (ev_r s)[op := rw]\<rparr>
      in if rw \<noteq> - 1
         then (case V_get w a' of
                 None \<Rightarrow> None
               | Some va \<Rightarrow>
                   (let s2 = s1\<lparr>ev_v := (ev_v s1)[op := float_of_int env rw + va]\<rparr>
                    in Some (if ev_v s2 ! op > ev_v s2 ! ev_x s2 then s2\<lparr>ev_x := op\<rparr> else s2)))
         else Some s1)"

definition eval_start :: "'f::zero env \<Rightarrow> board \<Rightarrow> 'f evals" where
  "eval_start env b =
     \<lparr>ev_a = [b, b, b, b], ev_r = [- 1, 0, 0, 0], ev_v = [lowest env, 0, 0, 0], ev_x = 0\<rparr>"

definition evaluate :: "'f::{zero,plus,ord} env \<Rightarrow> 'f list \<Rightarrow> board \<Rightarrow> 'f evals option" where
  "evaluate env w b =
     fold (\<lambda>op s. Option.bind s (evaluate_op env w op)) [0, 1, 2, 3] (Some (eval_start env b))"

text \<open>
  What holds of the arrays once the loop has run for the opcodes below \<open>k\<close>: the entries
  of \<^verbatim>\<open>a\<close>, \<^verbatim>\<open>r\<close> and \<^verbatim>\<open>v\<close> below \<open>k\<close> are those of the moves, \<^verbatim>\<open>x\<close> is 0 or a legal
  opcode below \<open>k\<close>, and \<^verbatim>\<open>v[0]\<close> is still the initial value unless \<open>Up\<close> was legal.
\<close>

definition eval_inv :: "'f::{zero,plus,ord} env \<Rightarrow> 'f list \<Rightarrow> board \<Rightarrow> nat \<Rightarrow> 'f evals \<Rightarrow> bool" where
  "eval_inv env w b k s \<longleftrightarrow>
     length (ev_a s) = 4 \<and> length (ev_r s) = 4 \<and> length (ev_v s) = 4 \<and> ev_x s < 4
     \<and> (\<forall>op<4. k \<le> op \<longrightarrow> ev_a s ! op = b)
     \<and> (\<forall>op<k. ev_r s ! op = fst (move b (int op)) \<and> ev_a s ! op = snd (move b (int op)))
     \<and> (\<forall>op<k. ev_r s ! op \<noteq> - 1 \<longrightarrow>
           (\<exists>va. V_get w (ev_a s ! op) = Some va
              \<and> ev_v s ! op = float_of_int env (ev_r s ! op) + va))
     \<and> (ev_x s = 0 \<or> (ev_x s < k \<and> ev_r s ! ev_x s \<noteq> - 1))
     \<and> ((k = 0 \<or> ev_r s ! 0 = - 1) \<longrightarrow> ev_v s ! 0 = lowest env)"

text \<open>
  The order of the candidate values seen so far: \<^verbatim>\<open>v[x]\<close> is not below the value of any
  legal opcode below \<open>k\<close>, it is above the value of every legal opcode before \<^verbatim>\<open>x\<close>, and
  \<^verbatim>\<open>x\<close> is legal as soon as some opcode below \<open>k\<close> is, provided the legal values are
  above the initial \<^verbatim>\<open>v[0]\<close>.
\<close>

definition eval_best :: "'f::{zero,plus,linorder} env \<Rightarrow> nat \<Rightarrow> 'f evals \<Rightarrow> bool" where
  "eval_best env k s \<longleftrightarrow>
     (\<forall>op<k. ev_r s ! op \<noteq> - 1 \<longrightarrow> ev_v s ! op \<le> ev_v s ! ev_x s)
     \<and> (\<forall>op<ev_x s. ev_r s ! op \<noteq> - 1 \<longrightarrow> ev_v s ! op < ev_v s ! ev_x s)
     \<and> ((\<forall>op<k. ev_r s ! op \<noteq> - 1 \<longrightarrow> lowest env < ev_v s ! op) \<longrightarrow>
          (\<exists>op<k. ev_r s ! op \<noteq> - 1) \<longrightarrow> ev_r s ! ev_x s \<noteq> - 1)"

text \<open>
  The forward update (\<^verbatim>\<open>if (forward && history.size() > 1)\<close>):
  \<^verbatim>\<open>float exact = r[x] != -1 ? v[x] : 0; float& u = V(history[history.size() - 2]);\<close>
  \<^verbatim>\<open>auto upd = alpha * (exact - u); train_isomorphic(history[history.size() - 2], upd);\<close>
  The output to the console is left out.
\<close>

definition td_forward :: "'f::{zero,plus,minus,times} env \<Rightarrow> 'f list \<Rightarrow> board list \<Rightarrow> 'f evals \<Rightarrow> 'f list option" where
  "td_forward env w hist ev =
     (if forward env \<and> length hist > 1
      then (let exact = (if ev_r ev ! ev_x ev \<noteq> - 1 then ev_v ev ! ev_x ev else 0);
                prior = hist ! (length hist - 2)
            in case V_get w prior of
                 None \<Rightarrow> None
               | Some u \<Rightarrow> train_isomorphic env w prior (alpha env * (exact - u)))
      else Some w)"

text \<open>
  The state of an episode: the table, \<^verbatim>\<open>history\<close>, \<^verbatim>\<open>actions\<close>, the board \<^verbatim>\<open>b\<close>
  (\<open>cur\<close>) and the number of calls of \<^verbatim>\<open>std::rand()\<close> made.

  \<open>episode_step\<close> is the body of \<^verbatim>\<open>while (true)\<close>: \<^verbatim>\<open>b.next(); history.push_back(b);\<close>
  the evaluation, the forward update, then \<^verbatim>\<open>if (r[x] == -1) break;\<close> and
  \<^verbatim>\<open>b = a[x]; history.push_back(b); actions.push_back(x);\<close>. The flag returned is
  \<open>False\<close> when the loop is left.
\<close>

record 'f episode =
  weight :: "'f list"
  history :: "board list"
  actions :: "nat list"
  cur :: board
  rand_count :: nat

definition episode_step :: "'f::{zero,plus,minus,times,ord} env \<Rightarrow> (nat \<Rightarrow> nat) \<Rightarrow> 'f episode \<Rightarrow> ('f episode \<times> bool) option" where
  "episode_step env rnd s =
     (let (b, k) = next_board rnd (rand_count s) (cur s);
          hist = history s @ [b]
      in case evaluate env (weight s) b of
           None \<Rightarrow> None
         | Some ev \<Rightarrow>
            (case td_forward env (weight s) hist ev of
               None \<Rightarrow> None
             | Some w \<Rightarrow>
                 if ev_r ev ! ev_x ev = - 1
                 then Some (s\<lparr>weight := w, history := hist, cur := b, rand_count := k\<rparr>, False)
                 else Some (s\<lparr>weight := w, history := hist @ [ev_a ev ! ev_x ev],
                              actions := actions s @ [ev_x ev], cur := ev_a ev ! ev_x ev,
                              rand_count := k\<rparr>, True)))"

text \<open>
  The loop \<^verbatim>\<open>while (true)\<close> of one episode. It ends when the step leaves it; a run that
  never ends, like one that steps outside the table, has no result (\<open>None\<close>).
\<close>

partial_function (option) play :: "'f::{zero,plus,minus,times,ord} env \<Rightarrow> (nat \<Rightarrow> nat) \<Rightarrow> 'f episode \<Rightarrow> 'f episode option" where
  "play env rnd s =
     Option.bind (episode_step env rnd s)
       (\<lambda>(s', continue). if continue then play env rnd s' else Some s')"

declare play.simps [code]

text \<open>
  The backward replay (\<^verbatim>\<open>if (backward)\<close>): \<^verbatim>\<open>float exact = 0; history.pop_back();\<close> and the
  loop \<^verbatim>\<open>while (history.size())\<close>. In the body \<^verbatim>\<open>v\<close> is a reference to the table entry of
  \<^verbatim>\<open>history.back()\<close>, so \<^verbatim>\<open>exact = v + r\<close> reads the entry after \<^verbatim>\<open>train_isomorphic\<close> has
  changed it. \<^verbatim>\<open>back()\<close> and \<^verbatim>\<open>pop_back()\<close> on an empty vector are undefined (\<open>None\<close>).
  The \<^verbatim>\<open>int r\<close> of the source is only printed and added to \<^verbatim>\<open>exact\<close>; it is a local of
  the body here.
\<close>

function backward_loop :: "'f::{plus,minus,times} env \<Rightarrow> 'f list \<Rightarrow> board list \<Rightarrow> nat list \<Rightarrow> 'f
    \<Rightarrow> ('f list \<times> board list \<times> nat list) option" where
  "backward_loop env w hist acts exact =
     (if hist = [] then Some (w, hist, acts)
      else (case V_get w (last hist) of
              None \<Rightarrow> None
            | Some v \<Rightarrow>
               (case train_isomorphic env w (last hist) (alpha env * (exact - v)) of
                  None \<Rightarrow> None
                | Some w' \<Rightarrow>
                   (let hist1 = butlast hist
                    in if hist1 = [] \<or> acts = [] then None
                       else (let r = fst (move (last hist1) (int (last acts)))
                             in case V_get w' (last hist) of
                                  None \<Rightarrow> None
                                | Some v' \<Rightarrow>
                                    backward_loop env w' (butlast hist1) (butlast acts)
                                      (v' + float_of_int env r))))))"
  by pat_completeness auto
termination
  by (relation "measure (\<lambda>(env, w, hist, acts, exact). length hist)") auto

declare backward_loop.simps [simp del]

definition backward_replay :: "'f::{zero,plus,minus,times} env \<Rightarrow> 'f list \<Rightarrow> board list \<Rightarrow> nat list
    \<Rightarrow> ('f list \<times> board list \<times> nat list) option" where
  "backward_replay env w hist acts =
     (if backward env
      then (if hist = [] then None else backward_loop env w (butlast hist) acts 0)
      else Some (w, hist, acts))"

text \<open>
  One episode, from \<^verbatim>\<open>board b;\<close> to \<^verbatim>\<open>history.clear(); actions.clear();\<close>: the result
  is the table and the number of calls of \<^verbatim>\<open>std::rand()\<close>, which are all that the next
  episode sees.
\<close>

definition run_episode :: "'f::{zero,plus,minus,times,ord} env \<Rightarrow> (nat \<Rightarrow> nat) \<Rightarrow> 'f list \<Rightarrow> nat
    \<Rightarrow> ('f list \<times> nat) option" where
  "run_episode env rnd w k =
     (case play env rnd \<lparr>weight = w, history = [], actions = [], cur = board_empty, rand_count = k\<rparr> of
        None \<Rightarrow> None
      | Some s \<Rightarrow>
         (case backward_replay env (weight s) (history s) (actions s) of
            None \<Rightarrow> None
          | Some (w', hist, acts) \<Rightarrow> Some (w', rand_count s)))"

text \<open>
  The configuration of \<^verbatim>\<open>main\<close> read in exact arithmetic over the reals, used to run
  the model on examples: \<open>alpha = 0.01\<close>, 8 variants, forward mode, and
  \<open>-(2 ^ 128 - 2 ^ 104)\<close> for \<^verbatim>\<open>-std::numeric_limits<float>::max()\<close>.
\<close>

definition demo_env :: "real env" where
  "demo_env = \<lparr>alpha = 1 / 100, isomorphic_count = 8, forward = True, backward = False,
                float_of_int = of_int, lowest = - (2 ^ 128 - 2 ^ 104)\<rparr>"

text \<open>
  A sequence of values for \<^verbatim>\<open>std::rand()\<close>, the state at the start of an episode on the
  fresh table, and the state after its first step under that sequence (one legal move,
  \<open>Down\<close>, made).
\<close>

definition demo_rnd :: "nat \<Rightarrow> nat" where
  "demo_rnd k = 5 * k + 1"

definition demo_start :: "real episode" where
  "demo_start = \<lparr>weight = weight_init, history = [], actions = [], cur = board_empty, rand_count = 0\<rparr>"

definition demo_second :: "real episode" where
  "demo_second = \<lparr>weight = weight_init, history = [Board 0 1 0 0, Board 0 0 0 1], actions = [2],
     cur = Board 0 0 0 1, rand_count = 2\<rparr>"

text \<open>
  A table after long training has overflowed: entries that are not above
  \<^verbatim>\<open>-std::numeric_limits<float>::max()\<close>. Here the entry of the board \<open>(0,2,0,1)\<close> is
  such a value and the others are 0.
\<close>

definition sunk_table :: "real list" where
  "sunk_table = weight_init[nat (V_index (Board 0 2 0 1)) := lowest demo_env]"

section \<open>Backward mode in the words of the specification\<close>

text \<open>
  An episode as the specification describes it: a sequence of steps, each a before-state,
  the action chosen there and the afterstate it produced. \<open>episode_history\<close> and
  \<open>episode_actions\<close> are the two vectors such an episode leaves behind (before the
  terminal before-state is pushed), and \<open>episode_ok\<close> says that every recorded action
  was legal and produced the recorded afterstate.
\<close>

fun episode_history :: "(board \<times> nat \<times> board) list \<Rightarrow> board list" where
  "episode_history [] = []"
| "episode_history ((bef, x, aft) # rest) = bef # aft # episode_history rest"

definition episode_actions :: "(board \<times> nat \<times> board) list \<Rightarrow> nat list" where
  "episode_actions steps = map (\<lambda>(bef, x, aft). x) steps"

definition episode_ok :: "(board \<times> nat \<times> board) list \<Rightarrow> bool" where
  "episode_ok steps \<longleftrightarrow>
     (\<forall>(bef, x, aft) \<in> set steps.
        x < 4 \<and> fst (move bef (int x)) \<noteq> - 1 \<and> aft = snd (move bef (int x)))"

text \<open>
  The replay, following the specification: the steps are visited from the last to the
  first (the list is given latest first), \<open>exact\<close> is the running return; for each
  afterstate, \<open>delta = alpha * (exact - get(state))\<close> is applied with the isomorphism
  sharing of the forward mode, and then \<open>exact\<close> becomes \<open>get(state)\<close>, read after the
  update, plus the reward of applying the recorded action to the preceding before-state.
\<close>

fun replay_spec :: "'f::{plus,minus,times} env \<Rightarrow> 'f list \<Rightarrow> 'f \<Rightarrow> (board \<times> nat \<times> board) list
    \<Rightarrow> 'f list option" where
  "replay_spec env w exact [] = Some w"
| "replay_spec env w exact ((bef, x, state) # earlier) =
     (case V_get w state of
        None \<Rightarrow> None
      | Some v \<Rightarrow>
         (let delta = alpha env * (exact - v)
          in case train_isomorphic env w state delta of
               None \<Rightarrow> None
             | Some w' \<Rightarrow>
                (case V_get w' state of
                   None \<Rightarrow> None
                 | Some v' \<Rightarrow>
                     replay_spec env w' (v' + float_of_int env (fst (move bef (int x))))
                       earlier)))"

text \<open>
  An episode in backward mode on the fresh table: the configuration, the values of
  \<^verbatim>\<open>std::rand()\<close>, the four steps played and the state when the loop is left.
\<close>

definition replay_env :: "real env" where
  "replay_env = demo_env\<lparr>forward := False, backward := True\<rparr>"

definition replay_rnd :: "nat \<Rightarrow> nat" where
  "replay_rnd k = (if k = 7 \<or> k = 9 then 1 else 0)"

definition replay_steps :: "(board \<times> nat \<times> board) list" where
  "replay_steps = [(Board 2 0 0 0, 1, Board 0 2 0 0), (Board 2 2 0 0, 1, Board 0 3 0 0),
                   (Board 2 3 0 0, 2, Board 0 0 2 3), (Board 1 0 2 3, 0, Board 1 3 2 0)]"

definition replay_final :: "real episode" where
  "replay_final = \<lparr>weight = weight_init,
     history = episode_history replay_steps @ [Board 1 3 2 1],
     actions = episode_actions replay_steps, cur = Board 1 3 2 1, rand_count = 10\<rparr>"

section \<open>Properties of the packed encoding\<close>

lemma and_15_eq_mod: "(v::int) AND 15 = v mod 16"
proof -
  have "v AND mask 4 = v mod 2 ^ 4"
    by (simp only: take_bit_eq_mask[symmetric] take_bit_eq_mod)
  then show ?thesis by (simp add: mask_eq_exp_minus_1)
qed

lemma digit_div: "0 \<le> r \<Longrightarrow> r < d \<Longrightarrow> (q * d + r) div d = (q::int)"
  by (simp add: div_pos_pos_trivial)

lemma digit_mod: "0 \<le> r \<Longrightarrow> r < d \<Longrightarrow> (q * d + r) mod d = (r::int)"
  by (simp add: mod_pos_pos_trivial)

lemma decode_Board:
  assumes "rank_ok a" "rank_ok b" "rank_ok c" "rank_ok d"
  shows "decode (a * 4096 + b * 256 + c * 16 + d) = Board a b c d"
proof -
  from assms have r: "0 \<le> a" "a < 16" "0 \<le> b" "b < 16" "0 \<le> c" "c < 16" "0 \<le> d" "d < 16"
    by (simp_all add: rank_ok_def)
  let ?v = "a * 4096 + b * 256 + c * 16 + d"
  have d0: "?v mod 16 = d"
    using digit_mod [of d 16 "a * 256 + b * 16 + c"] r by (simp add: algebra_simps)
  have q1: "?v div 16 = a * 256 + b * 16 + c"
    using digit_div [of d 16 "a * 256 + b * 16 + c"] r by (simp add: algebra_simps)
  have d1: "(a * 256 + b * 16 + c) mod 16 = c"
    using digit_mod [of c 16 "a * 16 + b"] r by (simp add: algebra_simps)
  have q2: "(a * 256 + b * 16 + c) div 16 = a * 16 + b"
    using digit_div [of c 16 "a * 16 + b"] r by (simp add: algebra_simps)
  have d2: "(a * 16 + b) mod 16 = b"
    using digit_mod [of b 16 a] r by simp
  have q3: "(a * 16 + b) div 16 = a"
    using digit_div [of b 16 a] r by simp
  have d3: "a mod 16 = a"
    using r by (simp add: mod_pos_pos_trivial)
  have s4: "drop_bit 4 ?v = a * 256 + b * 16 + c"
    using q1 by (simp add: drop_bit_eq_div)
  have "drop_bit 8 ?v = drop_bit 4 (drop_bit 4 ?v)" by simp
  then have s8: "drop_bit 8 ?v = a * 16 + b"
    using q2 by (simp only: s4) (simp add: drop_bit_eq_div)
  have "drop_bit 12 ?v = drop_bit 4 (drop_bit 8 ?v)" by simp
  then have s12: "drop_bit 12 ?v = a"
    using q3 by (simp only: s8) (simp add: drop_bit_eq_div)
  show ?thesis
    unfolding decode_def by (simp only: s4 s8 s12 and_15_eq_mod d0 d1 d2 d3)
qed

lemma decode_encode: "valid_board b \<Longrightarrow> decode (encode b) = b"
  by (cases b) (simp add: valid_board_def encode_def decode_Board)

lemma mod_split16: "(v::int) mod (16 * n) = 16 * (v div 16 mod n) + v mod 16" if "0 \<le> n"
  using that by (rule zmod_zmult2_eq)

lemma encode_decode: "encode (decode v) = v mod 65536"
proof -
  have a: "v mod 65536 = 16 * (v div 16 mod 4096) + v mod 16"
    using mod_split16 [of 4096 v] by simp
  have b: "v div 16 mod 4096 = 16 * (v div 256 mod 256) + v div 16 mod 16"
    using mod_split16 [of 256 "v div 16"] by (simp add: zdiv_zmult2_eq [symmetric])
  have c: "v div 256 mod 256 = 16 * (v div 4096 mod 16) + v div 256 mod 16"
    using mod_split16 [of 16 "v div 256"] by (simp add: zdiv_zmult2_eq [symmetric])
  show ?thesis
    by (simp add: decode_def encode_def and_15_eq_mod drop_bit_eq_div a b c)
qed

lemma mod_16_le: "(x::int) mod 16 \<le> 15"
  using pos_mod_bound [of 16 x] by linarith

lemma valid_decode: "valid_board (decode v)"
  by (simp add: decode_def valid_board_def rank_ok_def and_15_eq_mod mod_16_le)

lemma encode_range: "valid_board b \<Longrightarrow> 0 \<le> encode b \<and> encode b < 65536"
  by (cases b) (simp add: valid_board_def rank_ok_def encode_def)

lemma encode_inj: "valid_board b \<Longrightarrow> valid_board c \<Longrightarrow> encode b = encode c \<Longrightarrow> b = c"
  by (metis decode_encode)

text \<open>
  Claim C7. Decoding a 16-bit value and encoding the board again gives the value back;
  decoding is a bijection from the 16-bit values onto the boards whose four ranks lie in
  \<open>[0,15]\<close>, and encoding is its inverse.
\<close>

theorem encode_decode_roundtrip:
  "(\<forall>v \<in> {0..<65536}. encode (decode v) = v)
   \<and> bij_betw decode {0..<65536} {b. valid_board b}
   \<and> (\<forall>b \<in> {b. valid_board b}. decode (encode b) = b \<and> encode b \<in> {0..<65536})"
proof (intro conjI ballI)
  fix v :: int assume "v \<in> {0..<65536}"
  then show "encode (decode v) = v" by (simp add: encode_decode)
next
  show "bij_betw decode {0..<65536} {b. valid_board b}"
  proof (rule bij_betw_byWitness [where f' = encode])
    show "decode ` {0..<65536} \<subseteq> {b. valid_board b}" by (auto simp: valid_decode)
    show "encode ` {b. valid_board b} \<subseteq> {0..<65536}" using encode_range by auto
    show "\<forall>v \<in> {0..<65536}. encode (decode v) = v" by (simp add: encode_decode)
    show "\<forall>b \<in> {b. valid_board b}. decode (encode b) = b" by (simp add: decode_encode)
  qed
next
  fix b assume "b \<in> {b. valid_board b}"
  then show "decode (encode b) = b" by (simp add: decode_encode)
next
  fix b assume "b \<in> {b. valid_board b}"
  then show "encode b \<in> {0..<65536}" using encode_range by simp
qed

theorem encode_decode_roundtrip_witness:
  "(4660::int) \<in> {0..<65536} \<and> encode (decode 4660) = 4660
   \<and> valid_board (Board 1 2 3 4) \<and> decode (encode (Board 1 2 3 4)) = Board 1 2 3 4"
  using encode_decode_roundtrip by (simp add: valid_board_def rank_ok_def)

section \<open>Properties of the symmetries\<close>

lemma mset_mirror: "mset (cells (mirror b)) = mset (cells b)"
  by (simp add: cells_def mirror_def)

lemma mset_transpose_board: "mset (cells (transpose_board b)) = mset (cells b)"
  by (simp add: cells_def transpose_board_def)

lemma mset_flip_board: "mset (cells (flip_board b)) = mset (cells b)"
  by (simp add: cells_def flip_board_def)

lemma mset_rotate_board: "mset (cells (rotate_board b r)) = mset (cells b)"
  by (simp add: rotate_board_def Let_def mset_mirror mset_transpose_board mset_flip_board)

lemma mset_isomorphic: "mset (cells (isomorphic b i)) = mset (cells b)"
  by (simp add: isomorphic_def Let_def mset_mirror mset_rotate_board)

text \<open>
  Claim C8. For every board and every \<open>i\<close> in \<open>[0,8)\<close>, \<open>isomorphic(i)\<close> only permutes
  the cells: the multiset of the four ranks is the one of the original board.
\<close>

theorem isomorphic_permutes_cells:
  "0 \<le> i \<Longrightarrow> i < 8 \<Longrightarrow> mset (cells (isomorphic b i)) = mset (cells b)"
  by (rule mset_isomorphic)

theorem isomorphic_permutes_cells_witness:
  "(0::int) \<le> 5 \<and> (5::int) < 8 \<and> isomorphic (Board 1 2 3 4) 5 = Board 4 2 3 1
   \<and> mset (cells (isomorphic (Board 1 2 3 4) 5)) = mset (cells (Board 1 2 3 4))"
  using isomorphic_permutes_cells [of 5 "Board 1 2 3 4"]
  by (simp add: isomorphic_def rotate_board_def mirror_def transpose_board_def)

section \<open>Properties of the moves\<close>

text \<open>
  Claim C10. An opcode other than 0, 1, 2, 3 takes the \<^verbatim>\<open>default\<close> branch: \<open>move\<close>
  returns \<open>-1\<close> and the board is the one it was given.
\<close>

theorem move_unknown_opcode:
  "opcode \<notin> {0, 1, 2, 3} \<Longrightarrow> fst (move b opcode) = - 1 \<and> snd (move b opcode) = b"
  by (simp add: move_def)

theorem move_unknown_opcode_witness:
  "(7::int) \<notin> {0, 1, 2, 3} \<and> fst (move (Board 1 1 0 2) 7) = - 1
   \<and> snd (move (Board 1 1 0 2) 7) = Board 1 1 0 2"
  using move_unknown_opcode [of 7 "Board 1 1 0 2"] by simp

subsection \<open>The row rule\<close>

text \<open>
  Claim C3, as the specification states it: a row of two empty cells is merged into
  \<open>(1, 0)\<close> and adds 2 to the score. The source tests \<^verbatim>\<open>row[0] == 0\<close> first, so
  that row takes the slide branch and stays empty, adding nothing.
\<close>

theorem empty_row_merge_counterexample:
  "left_row (0, 0) \<noteq> ((1, 0), 2)"
  by (simp add: left_row_def)

text \<open>
  Claim C3, amended. A row whose first cell is empty takes the slide branch whatever the
  second cell holds: the second cell moves into the first, the second becomes empty and
  nothing is added to the score. For two empty cells the row stays empty, no tile appears,
  and \<open>left\<close> on the empty board reports \<open>-1\<close>. The merge branch is taken only by a
  row whose first cell is not empty.
\<close>

theorem empty_row_slides:
  "left_row (0, c) = ((c, 0), 0) \<and> left_row (0, 0) = ((0, 0), 0)
   \<and> left board_empty = (- 1, board_empty)"
  by (simp add: left_row_def left_def board_empty_def encode_def)

lemma uint_tile_value:
  assumes "1 \<le> k" "k \<le> 16"
  shows "uint (tile_value k) = 2 ^ nat k"
proof -
  from assms have "k \<in> set [1..16]" by simp
  then consider "k = 1" | "k = 2" | "k = 3" | "k = 4" | "k = 5" | "k = 6" | "k = 7" | "k = 8"
    | "k = 9" | "k = 10" | "k = 11" | "k = 12" | "k = 13" | "k = 14" | "k = 15" | "k = 16"
    by (simp add: upto.simps) blast
  then show ?thesis by cases (simp_all add: tile_value_def)
qed

lemma sint_small_sum:
  fixes x y :: "32 word"
  assumes "uint x \<le> 65536" "uint y \<le> 65536"
  shows "sint (0 + x + y) = uint x + uint y"
proof -
  have "uint x + uint y < 2 ^ LENGTH(32)" using assms by simp
  then have u: "uint (x + y) = uint x + uint y" by (simp only: uint_add_lem)
  have "sint (x + y) = signed_take_bit 31 (uint (x + y))" by (simp add: sint_uint)
  also have "\<dots> = uint x + uint y"
  proof -
    have nn: "0 \<le> uint x + uint y" by simp
    have lo: "- (2 ^ 31) \<le> uint x + uint y" by (rule order_trans [OF _ nn]) simp
    have hi: "uint x + uint y < 2 ^ 31" using assms by simp
    show ?thesis unfolding u using lo hi by (rule signed_take_bit_int_eq_self)
  qed
  finally show ?thesis by simp
qed

lemma left_row_score:
  assumes "rank_ok a" "rank_ok c"
  shows "uint (snd (left_row (a, c))) \<le> 65536"
proof (cases "a \<noteq> 0 \<and> a = c")
  case True
  with assms have k: "1 \<le> a + 1" "a + 1 \<le> 16" by (simp_all add: rank_ok_def)
  have "(2::int) ^ nat (a + 1) \<le> 2 ^ 16"
    using k by (intro power_increasing) simp_all
  with True uint_tile_value [OF k] show ?thesis by (simp add: left_row_def)
next
  case False
  then show ?thesis by (auto simp: left_row_def)
qed

lemma fst_left:
  assumes "valid_board b"
  shows "fst (left b) =
    (if encode (snd (left b)) \<noteq> encode b
     then uint (snd (left_row (t00 b, t01 b))) + uint (snd (left_row (t10 b, t11 b)))
     else - 1)"
proof -
  from assms have r: "rank_ok (t00 b)" "rank_ok (t01 b)" "rank_ok (t10 b)" "rank_ok (t11 b)"
    by (simp_all add: valid_board_def)
  obtain row0 s0 where l0: "left_row (t00 b, t01 b) = (row0, s0)"
    by (cases "left_row (t00 b, t01 b)")
  obtain row1 s1 where l1: "left_row (t10 b, t11 b) = (row1, s1)"
    by (cases "left_row (t10 b, t11 b)")
  have "uint s0 \<le> 65536" "uint s1 \<le> 65536"
    using left_row_score [OF r(1,2)] left_row_score [OF r(3,4)] by (simp_all add: l0 l1)
  then have "sint (0 + s0 + s1) = uint s0 + uint s1" by (rule sint_small_sum)
  then show ?thesis by (simp add: left_def Let_def l0 l1)
qed

text \<open>
  Claim C4. A row of two cells of the same rank \<open>r\<close>, \<open>1 \<le> r \<le> 15\<close>, merges into
  \<open>(r + 1, 0)\<close> and adds exactly \<open>2 ^ (r + 1)\<close> to the score; \<open>move(Left)\<close> on the board
  with cells \<open>(1, 1, 0, 0)\<close> returns 4 and leaves rank 2 in cell \<open>(0,0)\<close> and 0 elsewhere.
\<close>

theorem merge_reward:
  "1 \<le> r \<Longrightarrow> r \<le> 15 \<Longrightarrow>
     fst (left_row (r, r)) = (r + 1, 0) \<and> uint (snd (left_row (r, r))) = 2 ^ nat (r + 1)
     \<and> sint (snd (left_row (r, r))) = 2 ^ nat (r + 1)
     \<and> move (Board 1 1 0 0) 3 = (4, Board 2 0 0 0)"
proof (intro conjI)
  assume r: "1 \<le> r" "r \<le> 15"
  then have k: "1 \<le> r + 1" "r + 1 \<le> 16" by simp_all
  show "fst (left_row (r, r)) = (r + 1, 0)" using r by (simp add: left_row_def)
  show u: "uint (snd (left_row (r, r))) = 2 ^ nat (r + 1)"
    using r uint_tile_value [OF k] by (simp add: left_row_def)
  have "(2::int) ^ nat (r + 1) \<le> 2 ^ 16"
    using k by (intro power_increasing) simp_all
  then have "uint (snd (left_row (r, r))) \<le> 65536" using u by simp
  from sint_small_sum [OF this, of 0] show "sint (snd (left_row (r, r))) = 2 ^ nat (r + 1)"
    using u by simp
  show "move (Board 1 1 0 0) 3 = (4, Board 2 0 0 0)"
    by (simp add: move_def left_def left_row_def encode_def tile_value_def)
qed

theorem merge_reward_witness:
  "(1::int) \<le> 3 \<and> (3::int) \<le> 15 \<and> left_row (3, 3) = ((4, 0), 16)
   \<and> uint (snd (left_row (3, 3))) = 2 ^ nat (3 + 1)"
  using merge_reward [of 3] by (simp add: left_row_def tile_value_def)

subsection \<open>Illegal moves\<close>

lemma snd_left:
  "snd (left b) = Board (fst (fst (left_row (t00 b, t01 b)))) (snd (fst (left_row (t00 b, t01 b))))
     (fst (fst (left_row (t10 b, t11 b)))) (snd (fst (left_row (t10 b, t11 b))))"
  by (simp add: left_def Let_def split: prod.splits)

lemma rotate_board_1: "rotate_board b 1 = mirror (transpose_board b)"
  by (simp add: rotate_board_def smod_int_alt_def)

lemma rotate_board_m1: "rotate_board b (- 1) = flip_board (transpose_board b)"
  by (simp add: rotate_board_def smod_int_alt_def)

lemma valid_mirror: "valid_board (mirror b) = valid_board b"
  by (auto simp: valid_board_def mirror_def)

lemma valid_transpose_board: "valid_board (transpose_board b) = valid_board b"
  by (auto simp: valid_board_def transpose_board_def)

lemma left_enc:
  "valid_board b \<Longrightarrow> (encode (snd (left b)) = encode b) = (snd (left b) = b)"
  by (cases b) (auto simp: snd_left left_row_def encode_def valid_board_def rank_ok_def)

lemma right_enc:
  "valid_board b \<Longrightarrow> (encode (mirror (snd (left b))) = encode (mirror b)) = (snd (left b) = b)"
  by (cases b)
    (auto simp: snd_left left_row_def encode_def valid_board_def rank_ok_def mirror_def)

lemma down_enc:
  "valid_board b \<Longrightarrow>
    (encode (flip_board (transpose_board (snd (left b)))) = encode (flip_board (transpose_board b)))
      = (snd (left b) = b)"
  by (cases b)
    (auto simp: snd_left left_row_def encode_def valid_board_def rank_ok_def
      flip_board_def transpose_board_def)

lemma up_enc:
  "valid_board b \<Longrightarrow>
    (encode (flip_board (transpose_board (mirror (snd (left b)))))
       = encode (flip_board (transpose_board (mirror b))))
      = (snd (left b) = b)"
  by (cases b)
    (auto simp: snd_left left_row_def encode_def valid_board_def rank_ok_def
      flip_board_def transpose_board_def mirror_def)

lemma left_illegal:
  assumes "valid_board b"
  shows "(fst (left b) = - 1) = (snd (left b) = b)" and "fst (left b) = - 1 \<or> 0 \<le> fst (left b)"
proof -
  have nn: "0 \<le> uint (snd (left_row (t00 b, t01 b))) + uint (snd (left_row (t10 b, t11 b)))"
    by simp
  then have "uint (snd (left_row (t00 b, t01 b))) + uint (snd (left_row (t10 b, t11 b))) \<noteq> - 1"
    by linarith
  then show "(fst (left b) = - 1) = (snd (left b) = b)"
    using left_enc [OF assms] by (simp add: fst_left [OF assms])
  show "fst (left b) = - 1 \<or> 0 \<le> fst (left b)"
    using nn by (simp add: fst_left [OF assms])
qed

lemma mirror_mirror: "mirror (mirror b) = b"
  by (simp add: mirror_def)

lemma unrotate_down: "flip_board (transpose_board (mirror (transpose_board b))) = b"
  by (simp add: mirror_def flip_board_def transpose_board_def)

lemma fst_snd_right: "fst (right b) = fst (left (mirror b))" "snd (right b) = mirror (snd (left (mirror b)))"
  by (simp_all add: right_def case_prod_beta)

lemma fst_snd_down: "fst (down b) = fst (left (mirror (transpose_board b)))" 
  "snd (down b) = flip_board (transpose_board (snd (left (mirror (transpose_board b)))))"
  by (simp_all add: down_def rotate_board_1 rotate_board_m1 case_prod_beta)

lemma fst_snd_up: "fst (up b) = fst (left (mirror (mirror (transpose_board b))))" 
  "snd (up b) = flip_board (transpose_board (mirror (snd (left (mirror (mirror (transpose_board b)))))))"
  by (simp_all add: up_def fst_snd_right rotate_board_1 rotate_board_m1 case_prod_beta)

lemma left_ok: "valid_board b \<Longrightarrow> (fst (left b) = - 1) = (encode (snd (left b)) = encode b)"
  by (simp add: left_illegal left_enc)

lemma right_ok: 
  assumes "valid_board b" shows "(fst (right b) = - 1) = (encode (snd (right b)) = encode b)"
proof -
  have v: "valid_board (mirror b)" using assms by (simp add: valid_mirror)
  show ?thesis using right_enc [OF v] left_illegal(1) [OF v] by (simp add: fst_snd_right mirror_mirror)
qed

lemma down_ok: 
  assumes "valid_board b" shows "(fst (down b) = - 1) = (encode (snd (down b)) = encode b)"
proof -
  have v: "valid_board (mirror (transpose_board b))" using assms by (simp add: valid_mirror valid_transpose_board)
  show ?thesis using down_enc [OF v] left_illegal(1) [OF v] by (simp add: fst_snd_down unrotate_down)
qed

lemma up_ok: 
  assumes "valid_board b" shows "(fst (up b) = - 1) = (encode (snd (up b)) = encode b)"
proof -
  have v: "valid_board (mirror (mirror (transpose_board b)))" using assms by (simp add: valid_mirror valid_transpose_board)
  show ?thesis using up_enc [OF v] left_illegal(1) [OF v] by (simp add: fst_snd_up unrotate_down mirror_mirror)
qed

text \<open>
  Claim C2. For every board (four ranks in \<open>[0,15]\<close>) and every direction, \<open>move\<close>
  returns \<open>-1\<close> exactly when the encoding after the move equals the encoding before
  it. The score never stands in for the sentinel: a legal move returns a value that
  is not negative, so a move that changes the board and earns nothing returns 0.
\<close>

theorem move_illegal_iff_unchanged:
  assumes "valid_board b" "opcode \<in> {0, 1, 2, 3}"
  shows "(fst (move b opcode) = - 1) = (encode (snd (move b opcode)) = encode b)
    \<and> (fst (move b opcode) = - 1 \<or> 0 \<le> fst (move b opcode))"
proof -
  from assms(2) consider "opcode = 0" | "opcode = 1" | "opcode = 2" | "opcode = 3" by auto
  then show ?thesis
  proof cases
    case 1
    have v: "valid_board (mirror (mirror (transpose_board b)))"
      using assms(1) by (simp add: valid_mirror valid_transpose_board)
    show ?thesis using 1 up_ok [OF assms(1)] left_illegal(2) [OF v] by (simp add: move_def fst_snd_up)
  next
    case 2
    have v: "valid_board (mirror b)" using assms(1) by (simp add: valid_mirror)
    show ?thesis using 2 right_ok [OF assms(1)] left_illegal(2) [OF v] by (simp add: move_def fst_snd_right)
  next
    case 3
    have v: "valid_board (mirror (transpose_board b))"
      using assms(1) by (simp add: valid_mirror valid_transpose_board)
    show ?thesis using 3 down_ok [OF assms(1)] left_illegal(2) [OF v] by (simp add: move_def fst_snd_down)
  next
    case 4
    show ?thesis using 4 left_ok [OF assms(1)] left_illegal(2) [OF assms(1)] by (simp add: move_def)
  qed
qed

theorem move_illegal_iff_unchanged_witness:
  "valid_board (Board 0 1 0 0) \<and> (3::int) \<in> {0, 1, 2, 3}
   \<and> move (Board 0 1 0 0) 3 = (0, Board 1 0 0 0)
   \<and> (fst (move (Board 0 1 0 0) 3) = - 1)
       = (encode (snd (move (Board 0 1 0 0) 3)) = encode (Board 0 1 0 0))"
  using move_illegal_iff_unchanged [of "Board 0 1 0 0" 3]
  by (simp add: valid_board_def rank_ok_def move_def left_def left_row_def encode_def)

section \<open>Properties of the value table\<close>

lemma in_table_Board:
  "in_table (Board a b c d) \<longleftrightarrow> (0 \<le> a \<and> a \<le> 5) \<and> (0 \<le> b \<and> b \<le> 5) \<and> (0 \<le> c \<and> c \<le> 5) \<and> (0 \<le> d \<and> d \<le> 5)"
  by (simp add: in_table_def cells_def)

lemma V_index_range: "in_table b \<Longrightarrow> 0 \<le> V_index b \<and> V_index b \<le> 1295"
  by (cases b) (simp add: in_table_Board V_index_def)

lemma V_index_digits:
  assumes "in_table (Board a b c d)"
  shows "V_index (Board a b c d) mod 6 = d" "V_index (Board a b c d) div 6 mod 6 = c"
    "V_index (Board a b c d) div 6 div 6 mod 6 = b" "V_index (Board a b c d) div 6 div 6 div 6 = a"
proof -
  from assms have r: "0 \<le> a" "a < 6" "0 \<le> b" "b < 6" "0 \<le> c" "c < 6" "0 \<le> d" "d < 6"
    by (simp_all add: in_table_Board)
  let ?v = "V_index (Board a b c d)"
  have v: "?v = (a * 36 + b * 6 + c) * 6 + d" by (simp add: V_index_def)
  show d0: "?v mod 6 = d" unfolding v using r by (intro digit_mod) simp_all
  have q1: "?v div 6 = (a * 6 + b) * 6 + c" unfolding v using digit_div [of d 6 "a * 36 + b * 6 + c"] r
    by (simp add: algebra_simps)
  show "?v div 6 mod 6 = c" unfolding q1 using r by (intro digit_mod) simp_all
  have q2: "?v div 6 div 6 = a * 6 + b" unfolding q1 using r by (intro digit_div) simp_all
  show "?v div 6 div 6 mod 6 = b" unfolding q2 using r by (intro digit_mod) simp_all
  show "?v div 6 div 6 div 6 = a" unfolding q2 using r by (intro digit_div) simp_all
qed

lemma V_index_inj:
  assumes "in_table b" "in_table c" "V_index b = V_index c"
  shows "b = c"
proof -
  have d: "x = Board (V_index x div 6 div 6 div 6) (V_index x div 6 div 6 mod 6)
                (V_index x div 6 mod 6) (V_index x mod 6)" if "in_table x" for x
  proof (cases x)
    case (Board a1 a2 a3 a4)
    show ?thesis using that unfolding Board by (simp only: V_index_digits)
  qed
  have "b = Board (V_index b div 6 div 6 div 6) (V_index b div 6 div 6 mod 6)
                (V_index b div 6 mod 6) (V_index b mod 6)" using assms(1) by (rule d)
  also have "\<dots> = c" unfolding assms(3) using assms(2) by (rule d [symmetric])
  finally show ?thesis .
qed

lemma in_table_valid: "in_table b \<Longrightarrow> valid_board b"
  by (cases b) (simp add: in_table_Board valid_board_def rank_ok_def)

lemma in_table_isomorphic: "in_table (isomorphic b i) = in_table b"
  using mset_eq_setD [OF mset_isomorphic [of b i]] by (simp add: in_table_def)

lemma V_get_in_table: "length w = 1296 \<Longrightarrow> in_table b \<Longrightarrow> V_get w b = Some (w ! nat (V_index b))"
  using V_index_range [of b] by (simp add: V_get_def Let_def)

lemma V_add_in_table: "length w = 1296 \<Longrightarrow> in_table b \<Longrightarrow> V_add w b upd = Some (w[nat (V_index b) := w ! nat (V_index b) + upd])"
  using V_index_range [of b] by (simp add: V_add_def Let_def)

text \<open>
  Claim C9. With the table of 1296 entries and a board whose four ranks lie in \<open>[0,5]\<close>,
  the index is \<open>r00 * 216 + r01 * 36 + r10 * 6 + r11\<close>, it lies in \<open>[0,1295]\<close>, and both
  the read and the update through \<^verbatim>\<open>V\<close> stay inside the table.
\<close>

theorem table_access_in_bounds:
  assumes "length w = 6 * 6 * 6 * 6" "in_table b"
  shows "V_index b = t00 b * 216 + t01 b * 36 + t10 b * 6 + t11 b
    \<and> 0 \<le> V_index b \<and> V_index b \<le> 1295
    \<and> nat (V_index b) < length w
    \<and> V_get w b = Some (w ! nat (V_index b))
    \<and> V_add w b upd = Some (w[nat (V_index b) := w ! nat (V_index b) + upd])"
proof -
  have len: "length w = 1296" using assms(1) by simp
  have "nat (V_index b) < length w" using V_index_range [OF assms(2)] len by linarith
  then show ?thesis
    using V_index_range [OF assms(2)] V_get_in_table [OF len assms(2)]
      V_add_in_table [OF len assms(2)]
    by (simp add: V_index_def)
qed

theorem table_access_in_bounds_witness:
  "length (weight_init :: real list) = 6 * 6 * 6 * 6 \<and> in_table (Board 5 5 5 5)
   \<and> V_index (Board 5 5 5 5) = 1295
   \<and> V_get (weight_init :: real list) (Board 5 5 5 5) = Some (weight_init ! nat (V_index (Board 5 5 5 5)))"
  using table_access_in_bounds [of "weight_init :: real list" "Board 5 5 5 5"]
  by (simp add: weight_init_def in_table_Board V_index_def)

subsection \<open>Training the symmetric variants\<close>

lemma train_loop_spec:
  assumes "\<forall>i \<in> set idxs. in_table (isomorphic b i)" "length w = 1296"
  shows "\<exists>w'. train_loop b upd idxs trained w = Some w' \<and> length w' = 1296 \<and>
     (\<forall>c. in_table c \<longrightarrow> w' ! nat (V_index c) =
        (if c \<in> isomorphic b ` set idxs \<and> encode c \<notin> set trained
         then w ! nat (V_index c) + upd else w ! nat (V_index c)))"
  using assms
proof (induction idxs arbitrary: trained w)
  case Nil
  then show ?case by simp
next
  case (Cons i rest)
  let ?iso = "isomorphic b i"
  have iso: "in_table ?iso" using Cons.prems by simp
  have rest: "\<forall>i \<in> set rest. in_table (isomorphic b i)" using Cons.prems by simp
  show ?case
  proof (cases "encode ?iso \<in> set trained")
    case True
    from Cons.IH [OF rest Cons.prems(2), of trained] obtain w' where
      w': "train_loop b upd rest trained w = Some w'" "length w' = 1296"
      "\<forall>c. in_table c \<longrightarrow> w' ! nat (V_index c) =
        (if c \<in> isomorphic b ` set rest \<and> encode c \<notin> set trained
         then w ! nat (V_index c) + upd else w ! nat (V_index c))" by blast
    have "train_loop b upd (i # rest) trained w = Some w'" using True w'(1) by simp
    moreover have "w' ! nat (V_index c) =
        (if c \<in> isomorphic b ` set (i # rest) \<and> encode c \<notin> set trained
         then w ! nat (V_index c) + upd else w ! nat (V_index c))" if "in_table c" for c
      using w'(3) that True by auto
    ultimately show ?thesis using w'(2) by blast
  next
    case False
    let ?w1 = "w[nat (V_index ?iso) := w ! nat (V_index ?iso) + upd]"
    have add: "V_add w ?iso upd = Some ?w1" using V_add_in_table [OF Cons.prems(2) iso] .
    have len1: "length ?w1 = 1296" using Cons.prems(2) by simp
    from Cons.IH [OF rest len1, of "trained @ [encode ?iso]"] obtain w' where
      w': "train_loop b upd rest (trained @ [encode ?iso]) ?w1 = Some w'" "length w' = 1296"
      "\<forall>c. in_table c \<longrightarrow> w' ! nat (V_index c) =
        (if c \<in> isomorphic b ` set rest \<and> encode c \<notin> set (trained @ [encode ?iso])
         then ?w1 ! nat (V_index c) + upd else ?w1 ! nat (V_index c))" by blast
    have "train_loop b upd (i # rest) trained w = Some w'" using False w'(1) add by simp
    moreover have "w' ! nat (V_index c) =
        (if c \<in> isomorphic b ` set (i # rest) \<and> encode c \<notin> set trained
         then w ! nat (V_index c) + upd else w ! nat (V_index c))" if c: "in_table c" for c
    proof (cases "c = ?iso")
      case True
      have "nat (V_index ?iso) < length w" using V_index_range [OF iso] Cons.prems(2) by linarith
      then show ?thesis using w'(3) c True False by simp
    next
      case ne: False
      have "V_index c \<noteq> V_index ?iso" using V_index_inj [OF c iso] ne by blast
      then have n: "nat (V_index c) \<noteq> nat (V_index ?iso)"
        using V_index_range [OF c] V_index_range [OF iso] by linarith
      have e: "encode c \<noteq> encode ?iso"
        using encode_inj [OF in_table_valid [OF c] in_table_valid [OF iso]] ne by blast
      show ?thesis using w'(3) c ne n e by auto
    qed
    ultimately show ?thesis using w'(2) by blast
  qed
qed

lemma train_isomorphic_spec:
  assumes "in_table b" "length w = 1296"
  shows "\<exists>w'. train_isomorphic env w b upd = Some w' \<and> length w' = 1296 \<and>
     (\<forall>c. in_table c \<longrightarrow> V_get w' c =
        Some (if c \<in> isomorphic b ` {0 ..< isomorphic_count env}
         then w ! nat (V_index c) + upd else w ! nat (V_index c)))"
proof -
  have s: "set [0 .. isomorphic_count env - 1] = {0 ..< isomorphic_count env}" by auto
  have "\<forall>i \<in> set [0 .. isomorphic_count env - 1]. in_table (isomorphic b i)"
    using assms(1) by (simp add: in_table_isomorphic)
  from train_loop_spec [OF this assms(2), of upd "[]"] show ?thesis
    unfolding train_isomorphic_def s by (auto simp: V_get_in_table)
qed

section \<open>Properties of the evaluation\<close>

lemma eval_inv_init: "eval_inv env w b 0 (eval_start env b)"
  by (auto simp: eval_inv_def eval_start_def nth_Cons')

lemma eval_best_init: "eval_best env 0 (eval_start env b)"
  by (simp add: eval_best_def eval_start_def)

lemma evaluate_op_cases:
  assumes "eval_inv env w b k s" "k < 4" "evaluate_op env w k s = Some s'"
  obtains (illegal) "fst (move b (int k)) = - 1"
      "s' = s\<lparr>ev_a := (ev_a s)[k := snd (move b (int k))], ev_r := (ev_r s)[k := - 1]\<rparr>"
  | (legal) va where "fst (move b (int k)) \<noteq> - 1" "V_get w (snd (move b (int k))) = Some va"
      "s' = (let s2 = s\<lparr>ev_a := (ev_a s)[k := snd (move b (int k))],
                         ev_r := (ev_r s)[k := fst (move b (int k))],
                         ev_v := (ev_v s)[k := float_of_int env (fst (move b (int k))) + va]\<rparr>
             in if ev_v s2 ! k > ev_v s2 ! ev_x s then s2\<lparr>ev_x := k\<rparr> else s2)"
proof -
  obtain rw a' where m: "move b (int k) = (rw, a')" by (cases "move b (int k)")
  have ak: "ev_a s ! k = b" using assms(1,2) by (simp add: eval_inv_def)
  show ?thesis
  proof (cases "rw = - 1")
    case True
    then have "s' = s\<lparr>ev_a := (ev_a s)[k := a'], ev_r := (ev_r s)[k := - 1]\<rparr>"
      using assms(3) by (simp add: evaluate_op_def ak m)
    then show ?thesis using True m illegal by simp
  next
    case False
    then obtain va where va: "V_get w a' = Some va"
      using assms(3) by (auto simp: evaluate_op_def ak m Let_def split: option.splits)
    show ?thesis
      using assms(3) False legal [of va] by (simp add: evaluate_op_def ak m va Let_def)
  qed
qed

lemma eval_inv_step:
  assumes "eval_inv env w b k s" "k < 4" "evaluate_op env w k s = Some s'"
  shows "eval_inv env w b (Suc k) s'"
  using assms
proof (cases rule: evaluate_op_cases)
  case illegal
  show ?thesis using assms(1,2) illegal(1) unfolding illegal(2) eval_inv_def
    by (auto simp: nth_list_update less_Suc_eq)
next
  case (legal va)
  show ?thesis using assms(1,2) legal(1,2) unfolding legal(3) eval_inv_def Let_def
    by (auto simp: nth_list_update less_Suc_eq)
qed

lemma eval_best_step:
  fixes env :: "'f::{zero,plus,linorder} env"
  assumes inv: "eval_inv env w b k s" and best: "eval_best env k s" and k: "k < 4"
    and op: "evaluate_op env w k s = Some s'"
  shows "eval_best env (Suc k) s'"
  using inv k op
proof (cases rule: evaluate_op_cases)
  case illegal
  have len: "length (ev_r s) = 4" "length (ev_v s) = 4" using inv by (simp_all add: eval_inv_def)
  have r': "ev_r s' = (ev_r s)[k := - 1]" and v': "ev_v s' = ev_v s" and x': "ev_x s' = ev_x s"
    unfolding illegal(2) by simp_all
  have x: "ev_x s = 0 \<or> (ev_x s < k \<and> ev_r s ! ev_x s \<noteq> - 1)"
    using inv by (simp add: eval_inv_def)
  have old: "ev_r s' ! op = ev_r s ! op" if "op < k" for op
    using that k len by (simp add: r')
  have new: "ev_r s' ! k = - 1" using k len by (simp add: r')
  have 1: "ev_v s' ! op \<le> ev_v s' ! ev_x s'" if "op < Suc k" "ev_r s' ! op \<noteq> - 1" for op
  proof -
    from that new have "op < k" by (cases "op = k") auto
    then show ?thesis using best that(2) old [of op] by (simp add: eval_best_def v' x')
  qed
  have 2: "ev_v s' ! op < ev_v s' ! ev_x s'" if "op < ev_x s'" "ev_r s' ! op \<noteq> - 1" for op
  proof -
    from that(1) x have "op < k" by (auto simp: x')
    then show ?thesis using best that old [of op] by (simp add: eval_best_def v' x')
  qed
  have 3: "ev_r s' ! ev_x s' \<noteq> - 1"
    if h: "\<forall>op<Suc k. ev_r s' ! op \<noteq> - 1 \<longrightarrow> lowest env < ev_v s' ! op"
      and e: "\<exists>op<Suc k. ev_r s' ! op \<noteq> - 1"
  proof -
    from e new obtain op where o: "op < k" "ev_r s' ! op \<noteq> - 1"
      by (metis less_Suc_eq)
    have "\<forall>op<k. ev_r s ! op \<noteq> - 1 \<longrightarrow> lowest env < ev_v s ! op"
      using h old by (simp add: v')
    moreover have "\<exists>op<k. ev_r s ! op \<noteq> - 1" using o old by auto
    ultimately have l: "ev_r s ! ev_x s \<noteq> - 1" using best by (simp add: eval_best_def)
    have "ev_x s < k" using x o(1) by auto
    then show ?thesis using l old by (simp add: x')
  qed
  show ?thesis unfolding eval_best_def using 1 2 3 by blast
next
  case (legal va)
  define rk where "rk = fst (move b (int k))"
  define ck where "ck = float_of_int env rk + va"
  have len: "length (ev_r s) = 4" "length (ev_v s) = 4" using inv by (simp_all add: eval_inv_def)
  have x: "ev_x s = 0 \<or> (ev_x s < k \<and> ev_r s ! ev_x s \<noteq> - 1)"
    using inv by (simp add: eval_inv_def)
  have low: "k = 0 \<or> ev_r s ! 0 = - 1 \<Longrightarrow> ev_v s ! 0 = lowest env"
    using inv by (simp add: eval_inv_def)
  have rk: "rk \<noteq> - 1" using legal(1) by (simp add: rk_def)
  have r': "ev_r s' = (ev_r s)[k := rk]" and v': "ev_v s' = (ev_v s)[k := ck]"
    and x': "ev_x s' = (if (ev_v s)[k := ck] ! ev_x s < ck then k else ev_x s)"
    unfolding legal(3) Let_def rk_def ck_def using k len by simp_all
  have old: "ev_r s' ! op = ev_r s ! op \<and> ev_v s' ! op = ev_v s ! op" if "op < k" for op
    using that k len by (simp add: r' v')
  have new: "ev_r s' ! k = rk" "ev_v s' ! k = ck" using k len by (simp_all add: r' v')
  have b1: "ev_v s ! op \<le> ev_v s ! ev_x s" if "op < k" "ev_r s ! op \<noteq> - 1" for op
    using best that by (simp add: eval_best_def)
  have b2: "ev_v s ! op < ev_v s ! ev_x s" if "op < ev_x s" "ev_r s ! op \<noteq> - 1" for op
    using best that by (simp add: eval_best_def)
  show ?thesis
  proof (cases "ev_x s = k")
    case True
    then have k0: "k = 0" using x by auto
    have xk: "ev_x s' = 0" using True k0 len by (simp add: x')
    show ?thesis unfolding eval_best_def using xk k0 new rk by auto
  next
    case False
    then have xlt: "ev_x s < k" using x by auto
    have vx: "(ev_v s)[k := ck] ! ev_x s = ev_v s ! ev_x s" using False by simp
    show ?thesis
    proof (cases "ev_v s ! ev_x s < ck")
      case True
      then have xk: "ev_x s' = k" by (simp add: x' vx)
      have 1: "ev_v s' ! op \<le> ev_v s' ! ev_x s'" if "op < Suc k" "ev_r s' ! op \<noteq> - 1" for op
      proof (cases "op = k")
        case True then show ?thesis by (simp add: xk)
      next
        case False
        then have o: "op < k" using that(1) by simp
        then have "ev_v s ! op \<le> ev_v s ! ev_x s" using b1 that(2) old by simp
        then show ?thesis using True o old new by (simp add: xk)
      qed
      have 2: "ev_v s' ! op < ev_v s' ! ev_x s'" if "op < ev_x s'" "ev_r s' ! op \<noteq> - 1" for op
      proof -
        have o: "op < k" using that(1) by (simp add: xk)
        then have "ev_v s ! op \<le> ev_v s ! ev_x s" using b1 that(2) old by simp
        then show ?thesis using True o old new by (simp add: xk)
      qed
      show ?thesis unfolding eval_best_def using 1 2 new rk by (auto simp: xk)
    next
      case nlt: False
      then have xk: "ev_x s' = ev_x s" by (simp add: x' vx)
      have 1: "ev_v s' ! op \<le> ev_v s' ! ev_x s'" if "op < Suc k" "ev_r s' ! op \<noteq> - 1" for op
      proof (cases "op = k")
        case True then show ?thesis using nlt new old [OF xlt] by (simp add: xk)
      next
        case False
        then have o: "op < k" using that(1) by simp
        then show ?thesis using b1 [OF o] that(2) old [OF o] old [OF xlt] by (simp add: xk)
      qed
      have 2: "ev_v s' ! op < ev_v s' ! ev_x s'" if "op < ev_x s'" "ev_r s' ! op \<noteq> - 1" for op
      proof -
        have o: "op < k" "op < ev_x s" using that(1) xlt by (simp_all add: xk)
        show ?thesis using b2 [OF o(2)] that(2) old [OF o(1)] old [OF xlt] by (simp add: xk)
      qed
      have 3: "ev_r s' ! ev_x s' \<noteq> - 1"
        if h: "\<forall>op<Suc k. ev_r s' ! op \<noteq> - 1 \<longrightarrow> lowest env < ev_v s' ! op"
      proof (cases "ev_r s ! ev_x s = - 1")
        case True
        then have x0: "ev_x s = 0" using x by auto
        then have "ev_v s ! ev_x s = lowest env" using low True by simp
        moreover have "lowest env < ck" using h new rk by auto
        ultimately show ?thesis using nlt by simp
      next
        case False
        then show ?thesis using old [OF xlt] by (simp add: xk)
      qed
      show ?thesis unfolding eval_best_def using 1 2 3 by blast
    qed
  qed
qed


lemma evaluate_steps:
  assumes "evaluate env w b = Some ev"
  obtains s1 s2 s3 where "evaluate_op env w 0 (eval_start env b) = Some s1"
    "evaluate_op env w 1 s1 = Some s2" "evaluate_op env w 2 s2 = Some s3"
    "evaluate_op env w 3 s3 = Some ev"
  using assms by (auto simp: evaluate_def bind_eq_Some_conv)

lemma evaluate_inv:
  assumes "evaluate env w b = Some ev"
  shows "eval_inv env w b 4 ev"
proof -
  from assms obtain s1 s2 s3 where e: "evaluate_op env w 0 (eval_start env b) = Some s1"
    "evaluate_op env w 1 s1 = Some s2" "evaluate_op env w 2 s2 = Some s3"
    "evaluate_op env w 3 s3 = Some ev" by (rule evaluate_steps)
  have "eval_inv env w b (Suc 0) s1" using eval_inv_step [OF eval_inv_init _ e(1)] by simp
  then have "eval_inv env w b 1 s1" by simp
  from eval_inv_step [OF this _ e(2)] have "eval_inv env w b 2 s2" by (simp add: numeral_2_eq_2)
  from eval_inv_step [OF this _ e(3)] have "eval_inv env w b 3 s3" by (simp add: numeral_3_eq_3 numeral_2_eq_2)
  from eval_inv_step [OF this _ e(4)] show ?thesis by (simp add: eval_nat_numeral)
qed


lemma evaluate_best:
  fixes env :: "'f::{zero,plus,linorder} env"
  assumes "evaluate env w b = Some ev"
  shows "eval_best env 4 ev"
proof -
  from assms obtain s1 s2 s3 where e: "evaluate_op env w 0 (eval_start env b) = Some s1"
    "evaluate_op env w 1 s1 = Some s2" "evaluate_op env w 2 s2 = Some s3"
    "evaluate_op env w 3 s3 = Some ev" by (rule evaluate_steps)
  have i1: "eval_inv env w b 1 s1" using eval_inv_step [OF eval_inv_init _ e(1)] by simp
  from eval_inv_step [OF this _ e(2)] have i2: "eval_inv env w b 2 s2"
    by (simp add: numeral_2_eq_2)
  from eval_inv_step [OF this _ e(3)] have i3: "eval_inv env w b 3 s3"
    by (simp add: numeral_3_eq_3 numeral_2_eq_2)
  have "eval_best env 1 s1" using eval_best_step [OF eval_inv_init eval_best_init _ e(1)] by simp
  from eval_best_step [OF i1 this _ e(2)] have "eval_best env 2 s2" by (simp add: numeral_2_eq_2)
  from eval_best_step [OF i2 this _ e(3)] have "eval_best env 3 s3"
    by (simp add: numeral_3_eq_3 numeral_2_eq_2)
  from eval_best_step [OF i3 this _ e(4)] show ?thesis by (simp add: eval_nat_numeral)
qed

lemma evaluate_op_total:
  assumes "eval_inv env w b k s" "k < 4" "length w = 1296"
    "fst (move b (int k)) \<noteq> - 1 \<longrightarrow> in_table (snd (move b (int k)))"
  shows "\<exists>s'. evaluate_op env w k s = Some s'"
proof -
  obtain rw a' where m: "move b (int k) = (rw, a')" by (cases "move b (int k)")
  have ak: "ev_a s ! k = b" using assms(1,2) by (simp add: eval_inv_def)
  show ?thesis
  proof (cases "rw = - 1")
    case True
    then show ?thesis by (simp add: evaluate_op_def ak m)
  next
    case False
    then have "in_table a'" using assms(4) m by simp
    from V_get_in_table [OF assms(3) this] False show ?thesis
      by (simp add: evaluate_op_def ak m Let_def)
  qed
qed

lemma evaluate_total:
  assumes len: "length w = 1296"
    and tab: "\<forall>op<4. fst (move b (int op)) \<noteq> - 1 \<longrightarrow> in_table (snd (move b (int op)))"
  shows "\<exists>ev. evaluate env w b = Some ev"
proof -
  have t: "fst (move b (int k)) \<noteq> - 1 \<longrightarrow> in_table (snd (move b (int k)))" if "k < 4" for k
    using tab that by blast
  have "\<exists>s'. evaluate_op env w 0 (eval_start env b) = Some s'"
    by (rule evaluate_op_total [OF eval_inv_init _ len t]) simp_all
  then obtain s1 where e1: "evaluate_op env w 0 (eval_start env b) = Some s1" by blast
  have i1: "eval_inv env w b 1 s1" using eval_inv_step [OF eval_inv_init _ e1] by simp
  have "\<exists>s'. evaluate_op env w 1 s1 = Some s'"
    by (rule evaluate_op_total [OF i1 _ len t]) simp_all
  then obtain s2 where e2: "evaluate_op env w 1 s1 = Some s2" by blast
  from eval_inv_step [OF i1 _ e2] have i2: "eval_inv env w b 2 s2"
    by (simp add: numeral_2_eq_2)
  have "\<exists>s'. evaluate_op env w 2 s2 = Some s'"
    by (rule evaluate_op_total [OF i2 _ len t]) simp_all
  then obtain s3 where e3: "evaluate_op env w 2 s2 = Some s3" by blast
  from eval_inv_step [OF i2 _ e3] have i3: "eval_inv env w b 3 s3"
    by (simp add: numeral_3_eq_3 numeral_2_eq_2)
  have "\<exists>s'. evaluate_op env w 3 s3 = Some s'"
    by (rule evaluate_op_total [OF i3 _ len t]) simp_all
  then obtain s4 where e4: "evaluate_op env w 3 s3 = Some s4" by blast
  show ?thesis using e1 e2 e3 e4 by (simp add: evaluate_def)
qed

text \<open>
  Where every legal candidate value is above the initial \<^verbatim>\<open>v[0]\<close>,
  \<^verbatim>\<open>-std::numeric_limits<float>::max()\<close>, and the values are ordered linearly (no NaN), the
  evaluation of a before-state \<open>b\<close> gives every legal direction the candidate value
  \<open>reward + V(afterstate)\<close>, in the order Up, Right, Down, Left, and selects a direction
  whose value no legal direction exceeds and which is strictly above the value of every
  legal direction before it (the first maximum, so a tie goes to the lowest opcode). An
  illegal direction is then selected only when all four are illegal, and it is opcode 0.
\<close>

lemma selection_above_sentinel:
  fixes env :: "'f::{zero,plus,linorder} env"
  assumes len: "length w = 1296"
    and tab: "\<forall>op<4. fst (move b (int op)) \<noteq> - 1 \<longrightarrow> in_table (snd (move b (int op)))"
    and low: "\<forall>op<4. fst (move b (int op)) \<noteq> - 1 \<longrightarrow>
        lowest env < float_of_int env (fst (move b (int op))) + w ! nat (V_index (snd (move b (int op))))"
  shows "\<exists>ev. evaluate env w b = Some ev \<and> ev_x ev < 4
    \<and> (\<forall>op<4. ev_r ev ! op = fst (move b (int op)) \<and> ev_a ev ! op = snd (move b (int op)))
    \<and> (\<forall>op<4. ev_r ev ! op \<noteq> - 1 \<longrightarrow>
          ev_v ev ! op = float_of_int env (ev_r ev ! op) + w ! nat (V_index (ev_a ev ! op)))
    \<and> (\<forall>op<4. ev_r ev ! op \<noteq> - 1 \<longrightarrow> ev_v ev ! op \<le> ev_v ev ! ev_x ev)
    \<and> (\<forall>op<ev_x ev. ev_r ev ! op \<noteq> - 1 \<longrightarrow> ev_v ev ! op < ev_v ev ! ev_x ev)
    \<and> ((\<exists>op<4. ev_r ev ! op \<noteq> - 1) \<longrightarrow> ev_r ev ! ev_x ev \<noteq> - 1)
    \<and> ((\<forall>op<4. ev_r ev ! op = - 1) \<longrightarrow> ev_x ev = 0)"
proof -
  from evaluate_total [OF len tab] obtain ev where ev: "evaluate env w b = Some ev" by blast
  have inv: "eval_inv env w b 4 ev" using ev by (rule evaluate_inv)
  have best: "eval_best env 4 ev" using ev by (rule evaluate_best)
  have x: "ev_x ev < 4" using inv by (simp add: eval_inv_def)
  have mv: "\<forall>op<4. ev_r ev ! op = fst (move b (int op)) \<and> ev_a ev ! op = snd (move b (int op))"
    using inv by (simp add: eval_inv_def)
  have cand: "ev_v ev ! op = float_of_int env (ev_r ev ! op) + w ! nat (V_index (ev_a ev ! op))"
    if "op < 4" "ev_r ev ! op \<noteq> - 1" for op
  proof -
    from inv that obtain va where va: "V_get w (ev_a ev ! op) = Some va"
      "ev_v ev ! op = float_of_int env (ev_r ev ! op) + va" unfolding eval_inv_def by blast
    have "in_table (ev_a ev ! op)" using tab mv that by simp
    from V_get_in_table [OF len this] va show ?thesis by simp
  qed
  have b1: "\<forall>op<4. ev_r ev ! op \<noteq> - 1 \<longrightarrow> ev_v ev ! op \<le> ev_v ev ! ev_x ev"
    using best by (simp add: eval_best_def)
  have b2: "\<forall>op<ev_x ev. ev_r ev ! op \<noteq> - 1 \<longrightarrow> ev_v ev ! op < ev_v ev ! ev_x ev"
    using best by (simp add: eval_best_def)
  have "\<forall>op<4. ev_r ev ! op \<noteq> - 1 \<longrightarrow> lowest env < ev_v ev ! op"
    using low mv cand by simp
  then have b3: "(\<exists>op<4. ev_r ev ! op \<noteq> - 1) \<longrightarrow> ev_r ev ! ev_x ev \<noteq> - 1"
    using best by (simp add: eval_best_def)
  have b4: "(\<forall>op<4. ev_r ev ! op = - 1) \<longrightarrow> ev_x ev = 0"
    using inv by (auto simp: eval_inv_def)
  show ?thesis using ev x mv cand b1 b2 b3 b4 by blast
qed


text \<open>
  Where \<open>Up\<close> is illegal and no legal candidate value is above the initial \<^verbatim>\<open>v[0]\<close>
  (a value that is \<^verbatim>\<open>-std::numeric_limits<float>::max()\<close>, minus infinity or NaN), the
  comparison \<^verbatim>\<open>v[op] > v[x]\<close> never holds: \<^verbatim>\<open>x\<close> stays 0 and \<^verbatim>\<open>r[x]\<close> is \<open>-1\<close>,
  whatever the arithmetic and whether or not other directions are legal.
\<close>

lemma evaluate_op_keeps_up:
  assumes inv: "eval_inv env w b k s" and k: "k < 4"
    and op: "evaluate_op env w k s = Some s'"
    and x0: "ev_x s = 0" "ev_v s ! 0 = lowest env"
    and up: "fst (move b 0) = - 1"
    and low: "\<And>va. fst (move b (int k)) \<noteq> - 1 \<Longrightarrow> V_get w (snd (move b (int k))) = Some va
        \<Longrightarrow> \<not> lowest env < float_of_int env (fst (move b (int k))) + va"
  shows "ev_x s' = 0 \<and> ev_v s' ! 0 = lowest env"
  using inv k op
proof (cases rule: evaluate_op_cases)
  case illegal
  then show ?thesis using x0 by simp
next
  case (legal va)
  have len: "length (ev_v s) = 4" using inv by (simp add: eval_inv_def)
  have k0: "k \<noteq> 0" using legal(1) up by (cases "k = 0") simp_all
  have v0: "(ev_v s)[k := float_of_int env (fst (move b (int k))) + va] ! 0 = lowest env"
    using k0 x0 by simp
  have "\<not> lowest env < float_of_int env (fst (move b (int k))) + va"
    using low legal(1,2) by blast
  then show ?thesis
    unfolding legal(3) Let_def using v0 x0 k len by simp
qed

lemma evaluate_keeps_up:
  assumes ev: "evaluate env w b = Some ev"
    and up: "fst (move b 0) = - 1"
    and low: "\<forall>op<4. \<forall>va. fst (move b (int op)) \<noteq> - 1
        \<longrightarrow> V_get w (snd (move b (int op))) = Some va
        \<longrightarrow> \<not> lowest env < float_of_int env (fst (move b (int op))) + va"
  shows "ev_x ev = 0 \<and> ev_r ev ! ev_x ev = - 1"
proof -
  from ev obtain s1 s2 s3 where e: "evaluate_op env w 0 (eval_start env b) = Some s1"
    "evaluate_op env w 1 s1 = Some s2" "evaluate_op env w 2 s2 = Some s3"
    "evaluate_op env w 3 s3 = Some ev" by (rule evaluate_steps)
  have l: "\<not> lowest env < float_of_int env (fst (move b (int k))) + va"
    if "k < 4" "fst (move b (int k)) \<noteq> - 1" "V_get w (snd (move b (int k))) = Some va" for k va
    using low that by blast
  have i1: "eval_inv env w b 1 s1" using eval_inv_step [OF eval_inv_init _ e(1)] by simp
  from eval_inv_step [OF this _ e(2)] have i2: "eval_inv env w b 2 s2"
    by (simp add: numeral_2_eq_2)
  from eval_inv_step [OF this _ e(3)] have i3: "eval_inv env w b 3 s3"
    by (simp add: numeral_3_eq_3 numeral_2_eq_2)
  have i4: "eval_inv env w b 4 ev" using ev by (rule evaluate_inv)
  have k0: "ev_x (eval_start env b) = 0 \<and> ev_v (eval_start env b) ! 0 = lowest env"
    by (simp add: eval_start_def)
  have k1: "ev_x s1 = 0 \<and> ev_v s1 ! 0 = lowest env"
    using evaluate_op_keeps_up [OF eval_inv_init _ e(1) _ _ up l [of 0]] k0 by simp
  have k2: "ev_x s2 = 0 \<and> ev_v s2 ! 0 = lowest env"
    using evaluate_op_keeps_up [OF i1 _ e(2) _ _ up l [of 1]] k1 by simp
  have k3: "ev_x s3 = 0 \<and> ev_v s3 ! 0 = lowest env"
    using evaluate_op_keeps_up [OF i2 _ e(3) _ _ up l [of 2]] k2 by simp
  have k4: "ev_x ev = 0 \<and> ev_v ev ! 0 = lowest env"
    using evaluate_op_keeps_up [OF i3 _ e(4) _ _ up l [of 3]] k3 by simp
  have "ev_r ev ! 0 = fst (move b (int 0))" using i4 by (simp add: eval_inv_def)
  then show ?thesis using k4 up by simp
qed

section \<open>Properties of the forward update\<close>

lemma train_isomorphic_nth:
  assumes "in_table b" "length w = 1296"
  obtains w' where "train_isomorphic env w b upd = Some w'" "length w' = 1296"
    "\<And>c. in_table c \<Longrightarrow> w' ! nat (V_index c) =
        (if c \<in> isomorphic b ` {0 ..< isomorphic_count env}
         then w ! nat (V_index c) + upd else w ! nat (V_index c))"
proof -
  from train_isomorphic_spec [OF assms, of env upd] obtain w' where
    w': "train_isomorphic env w b upd = Some w'" "length w' = 1296"
      "\<forall>c. in_table c \<longrightarrow> V_get w' c =
        Some (if c \<in> isomorphic b ` {0 ..< isomorphic_count env}
         then w ! nat (V_index c) + upd else w ! nat (V_index c))" by blast
  have "w' ! nat (V_index c) =
        (if c \<in> isomorphic b ` {0 ..< isomorphic_count env}
         then w ! nat (V_index c) + upd else w ! nat (V_index c))" if "in_table c" for c
    using w'(3) that V_get_in_table [OF w'(2) that] by simp
  then show ?thesis using that w'(1,2) by blast
qed

text \<open>
  Claim C1. In forward mode, on a step whose history already holds an entry before the
  new before-state \<open>b\<close> is pushed, the prior afterstate is the last entry of that
  history. With \<open>target\<close> the value \<open>reward(x) + V(afterstate(x))\<close> of the selected
  action \<open>x\<close> when it is legal and 0 otherwise (so 0 when all four actions are illegal),
  the step computes \<open>delta = alpha * (target - V(prior))\<close> and the table after the step
  holds, at every board among the 8 variants \<open>isomorphic(i)\<close> of the prior afterstate,
  the old entry plus \<open>delta\<close>, added once, and the old entry everywhere else. From an
  all-zero table, in an arithmetic where \<open>y - 0 = y\<close> and \<open>0 + y = y\<close> (as in IEEE
  arithmetic), every such entry is \<open>alpha * target\<close>.
\<close>

theorem forward_td_update:
  fixes env :: "'f::{zero,plus,minus,times,ord} env"
  assumes fwd: "forward env" and n8: "isomorphic_count env = 8"
    and len: "length (weight s) = 1296"
    and hist: "history s \<noteq> []" and prior: "in_table (last (history s))"
    and b: "b = fst (next_board rnd (rand_count s) (cur s))"
    and tab: "\<forall>op<4. fst (move b (int op)) \<noteq> - 1 \<longrightarrow> in_table (snd (move b (int op)))"
  shows "\<exists>ev s' continue target delta.
      evaluate env (weight s) b = Some ev
    \<and> episode_step env rnd s = Some (s', continue)
    \<and> target = (if fst (move b (int (ev_x ev))) \<noteq> - 1
                 then float_of_int env (fst (move b (int (ev_x ev))))
                        + weight s ! nat (V_index (snd (move b (int (ev_x ev)))))
                 else 0)
    \<and> ((\<forall>op<4. fst (move b (int op)) = - 1) \<longrightarrow> target = 0)
    \<and> delta = alpha env * (target - weight s ! nat (V_index (last (history s))))
    \<and> length (weight s') = 1296
    \<and> (\<forall>c. in_table c \<longrightarrow> weight s' ! nat (V_index c) =
          (if c \<in> isomorphic (last (history s)) ` {0 ..< 8}
           then weight s ! nat (V_index c) + delta else weight s ! nat (V_index c)))
    \<and> ((\<forall>y::'f. y - 0 = y) \<and> (\<forall>y::'f. 0 + y = y)
         \<and> (\<forall>c. in_table c \<longrightarrow> weight s ! nat (V_index c) = 0) \<longrightarrow>
        (\<forall>c \<in> isomorphic (last (history s)) ` {0 ..< 8}.
           weight s' ! nat (V_index c) = alpha env * target))"
proof -
  let ?w = "weight s" and ?p = "last (history s)"
  obtain k where nb: "next_board rnd (rand_count s) (cur s) = (b, k)"
    using b by (cases "next_board rnd (rand_count s) (cur s)") simp
  from evaluate_total [OF len tab] obtain ev where ev: "evaluate env ?w b = Some ev" by blast
  have inv: "eval_inv env ?w b 4 ev" using ev by (rule evaluate_inv)
  have x: "ev_x ev < 4" using inv by (simp add: eval_inv_def)
  have rx: "ev_r ev ! ev_x ev = fst (move b (int (ev_x ev)))"
    and ax: "ev_a ev ! ev_x ev = snd (move b (int (ev_x ev)))"
    using inv x by (simp_all add: eval_inv_def)
  define target where "target = (if fst (move b (int (ev_x ev))) \<noteq> - 1
                 then float_of_int env (fst (move b (int (ev_x ev))))
                        + ?w ! nat (V_index (snd (move b (int (ev_x ev)))))
                 else 0)"
  define delta where "delta = alpha env * (target - ?w ! nat (V_index ?p))"
  have exact: "(if ev_r ev ! ev_x ev \<noteq> - 1 then ev_v ev ! ev_x ev else 0) = target"
  proof (cases "ev_r ev ! ev_x ev = - 1")
    case True
    then show ?thesis by (simp add: target_def rx)
  next
    case False
    with inv x obtain va where va: "V_get ?w (ev_a ev ! ev_x ev) = Some va"
      "ev_v ev ! ev_x ev = float_of_int env (ev_r ev ! ev_x ev) + va"
      unfolding eval_inv_def by blast
    have "in_table (ev_a ev ! ev_x ev)" using tab x False rx ax by simp
    from V_get_in_table [OF len this] va False show ?thesis by (simp add: target_def rx ax)
  qed
  have all: "target = 0" if "\<forall>op<4. fst (move b (int op)) = - 1"
    using that x by (simp add: target_def)
  have pidx: "(history s @ [b]) ! (length (history s) - Suc 0) = ?p"
    using hist by (simp add: nth_append last_conv_nth)
  obtain w' where w': "train_isomorphic env ?w ?p delta = Some w'" "length w' = 1296"
    "\<And>c. in_table c \<Longrightarrow> w' ! nat (V_index c) =
        (if c \<in> isomorphic ?p ` {0 ..< isomorphic_count env}
         then ?w ! nat (V_index c) + delta else ?w ! nat (V_index c))"
    using train_isomorphic_nth [OF prior len] by blast
  have td: "td_forward env ?w (history s @ [b]) ev = Some w'"
    using fwd hist w'(1) V_get_in_table [OF len prior]
    by (simp add: td_forward_def exact delta_def Let_def pidx)
  have "\<exists>s' continue. episode_step env rnd s = Some (s', continue) \<and> weight s' = w'"
    using ev td by (cases "ev_r ev ! ev_x ev = - 1") (auto simp: episode_step_def nb Let_def)
  then obtain s' continue where
    step: "episode_step env rnd s = Some (s', continue)" "weight s' = w'" by blast
  have upd: "\<forall>c. in_table c \<longrightarrow> weight s' ! nat (V_index c) =
          (if c \<in> isomorphic ?p ` {0 ..< 8}
           then ?w ! nat (V_index c) + delta else ?w ! nat (V_index c))"
    using w'(3) by (simp add: step(2) n8)
  have zero: "\<forall>c \<in> isomorphic ?p ` {0 ..< 8}. weight s' ! nat (V_index c) = alpha env * target"
    if laws: "\<forall>y::'f. y - 0 = y" "\<forall>y::'f. 0 + y = y"
      and z: "\<forall>c. in_table c \<longrightarrow> ?w ! nat (V_index c) = 0"
  proof
    fix c assume c: "c \<in> isomorphic ?p ` {0 ..< 8}"
    then have ic: "in_table c" using prior by (auto simp: in_table_isomorphic)
    have "weight s' ! nat (V_index c) = ?w ! nat (V_index c) + delta" using upd ic c by simp
    also have "\<dots> = 0 + alpha env * (target - 0)" using z ic prior by (simp add: delta_def)
    also have "\<dots> = alpha env * target" using laws by simp
    finally show "weight s' ! nat (V_index c) = alpha env * target" .
  qed
  show ?thesis
    using ev step(1) target_def all delta_def w'(2) upd zero unfolding step(2) [symmetric]
    by blast
qed

section \<open>The model on examples\<close>

lemma all_less_4: "(\<forall>op<4::nat. P op) \<longleftrightarrow> P 0 \<and> P 1 \<and> P 2 \<and> P 3"
proof -
  have "op < 4 \<longleftrightarrow> op = 0 \<or> op = 1 \<or> op = 2 \<or> op = 3" for op :: nat by auto
  then show ?thesis by auto
qed

lemmas move_simps = move_def up_def right_def down_def left_def left_row_def encode_def
  rotate_board_def mirror_def transpose_board_def flip_board_def tile_value_def smod_int_alt_def

lemma demo_moves:
  "move (Board 1 1 2 0) 0 = (- 1, Board 1 1 2 0)"
  "move (Board 1 1 2 0) 1 = (4, Board 0 2 0 2)"
  "move (Board 1 1 2 0) 2 = (0, Board 1 0 2 1)"
  "move (Board 1 1 2 0) 3 = (4, Board 2 0 2 0)"
  by (simp_all add: move_simps)

lemma selection_above_sentinel_example:
  "length (weight_init :: real list) = 1296
   \<and> (\<exists>ev. evaluate demo_env weight_init (Board 1 1 2 0) = Some ev \<and> ev_x ev < 4
    \<and> (\<forall>op<4. ev_r ev ! op = fst (move (Board 1 1 2 0) (int op))
                \<and> ev_a ev ! op = snd (move (Board 1 1 2 0) (int op)))
    \<and> (\<forall>op<4. ev_r ev ! op \<noteq> - 1 \<longrightarrow>
          ev_v ev ! op = float_of_int demo_env (ev_r ev ! op)
                           + weight_init ! nat (V_index (ev_a ev ! op)))
    \<and> (\<forall>op<4. ev_r ev ! op \<noteq> - 1 \<longrightarrow> ev_v ev ! op \<le> ev_v ev ! ev_x ev)
    \<and> (\<forall>op<ev_x ev. ev_r ev ! op \<noteq> - 1 \<longrightarrow> ev_v ev ! op < ev_v ev ! ev_x ev)
    \<and> ((\<exists>op<4. ev_r ev ! op \<noteq> - 1) \<longrightarrow> ev_r ev ! ev_x ev \<noteq> - 1)
    \<and> ((\<forall>op<4. ev_r ev ! op = - 1) \<longrightarrow> ev_x ev = 0))"
proof -
  have len: "length (weight_init :: real list) = 1296" by (simp add: weight_init_def)
  have tab: "\<forall>op<4. fst (move (Board 1 1 2 0) (int op)) \<noteq> - 1
      \<longrightarrow> in_table (snd (move (Board 1 1 2 0) (int op)))"
    by (simp add: all_less_4 demo_moves in_table_Board)
  have low: "\<forall>op<4. fst (move (Board 1 1 2 0) (int op)) \<noteq> - 1 \<longrightarrow>
      lowest demo_env < float_of_int demo_env (fst (move (Board 1 1 2 0) (int op)))
         + (weight_init :: real list) ! nat (V_index (snd (move (Board 1 1 2 0) (int op))))"
    by (simp add: all_less_4 demo_moves demo_env_def weight_init_def V_index_def)
  from selection_above_sentinel [OF len tab low] len show ?thesis by simp
qed

lemma demo_moves1:
  "move (Board 0 1 0 0) 0 = (- 1, Board 0 1 0 0)"
  "move (Board 0 1 0 0) 1 = (- 1, Board 0 1 0 0)"
  "move (Board 0 1 0 0) 2 = (0, Board 0 0 0 1)"
  "move (Board 0 1 0 0) 3 = (0, Board 1 0 0 0)"
  by (simp_all add: move_simps)

lemma demo_moves2:
  "move (Board 0 0 1 1) 0 = (0, Board 1 1 0 0)"
  "move (Board 0 0 1 1) 1 = (4, Board 0 0 0 2)"
  "move (Board 0 0 1 1) 2 = (- 1, Board 0 0 1 1)"
  "move (Board 0 0 1 1) 3 = (4, Board 0 0 2 0)"
  by (simp_all add: move_simps)

lemma demo_next1: "next_board demo_rnd 0 board_empty = (Board 0 1 0 0, 2)"
  by (simp add: next_board_def demo_rnd_def board_empty_def)

lemma demo_next2: "next_board demo_rnd 2 (Board 0 0 0 1) = (Board 0 0 1 1, 4)"
  by (simp add: next_board_def demo_rnd_def)

lemmas eval_simps = evaluate_def eval_start_def evaluate_op_def V_get_def V_index_def
  weight_init_def demo_env_def

lemma demo_eval1:
  "evaluate demo_env weight_init (Board 0 1 0 0) =
     Some \<lparr>ev_a = [Board 0 1 0 0, Board 0 1 0 0, Board 0 0 0 1, Board 1 0 0 0],
           ev_r = [- 1, - 1, 0, 0], ev_v = [- (2 ^ 128 - 2 ^ 104), 0, 0, 0], ev_x = 2\<rparr>"
  by (simp add: eval_simps demo_moves1)

lemma demo_eval2:
  "evaluate demo_env weight_init (Board 0 0 1 1) =
     Some \<lparr>ev_a = [Board 1 1 0 0, Board 0 0 0 2, Board 0 0 1 1, Board 0 0 2 0],
           ev_r = [0, 4, - 1, 4], ev_v = [0, 4, 0, 4], ev_x = 1\<rparr>"
  by (simp add: eval_simps demo_moves2)

lemma demo_step1: "episode_step demo_env demo_rnd demo_start = Some (demo_second, True)"
  by (simp add: episode_step_def demo_start_def demo_second_def demo_next1 demo_eval1 td_forward_def)

theorem forward_td_update_witness:
  "episode_step demo_env demo_rnd demo_start = Some (demo_second, True)
   \<and> forward demo_env \<and> isomorphic_count demo_env = 8 \<and> length (weight demo_second) = 1296
   \<and> history demo_second \<noteq> [] \<and> in_table (last (history demo_second))
   \<and> (\<exists>s' continue. episode_step demo_env demo_rnd demo_second = Some (s', continue)
         \<and> (\<forall>c \<in> isomorphic (Board 0 0 0 1) ` {0 ..< 8}.
               weight s' ! nat (V_index c) = 1 / 100 * 4))"
proof -
  have fwd: "forward demo_env" and n8: "isomorphic_count demo_env = 8"
    by (simp_all add: demo_env_def)
  have len: "length (weight demo_second) = 1296" by (simp add: demo_second_def weight_init_def)
  have hist: "history demo_second \<noteq> []" by (simp add: demo_second_def)
  have prior: "in_table (last (history demo_second))"
    by (simp add: demo_second_def in_table_Board)
  have b: "Board 0 0 1 1 = fst (next_board demo_rnd (rand_count demo_second) (cur demo_second))"
    by (simp add: demo_second_def demo_next2)
  have tab: "\<forall>op<4. fst (move (Board 0 0 1 1) (int op)) \<noteq> - 1
      \<longrightarrow> in_table (snd (move (Board 0 0 1 1) (int op)))"
    by (simp add: all_less_4 demo_moves2 in_table_Board)
  from forward_td_update [OF fwd n8 len hist prior b tab]
  obtain ev s' continue target where
    ev: "evaluate demo_env (weight demo_second) (Board 0 0 1 1) = Some ev"
    and step: "episode_step demo_env demo_rnd demo_second = Some (s', continue)"
    and target: "target = (if fst (move (Board 0 0 1 1) (int (ev_x ev))) \<noteq> - 1
                 then float_of_int demo_env (fst (move (Board 0 0 1 1) (int (ev_x ev))))
                        + weight demo_second ! nat (V_index (snd (move (Board 0 0 1 1) (int (ev_x ev)))))
                 else 0)"
    and zero: "(\<forall>y::real. y - 0 = y) \<and> (\<forall>y::real. 0 + y = y)
         \<and> (\<forall>c. in_table c \<longrightarrow> weight demo_second ! nat (V_index c) = 0) \<longrightarrow>
        (\<forall>c \<in> isomorphic (last (history demo_second)) ` {0 ..< 8}.
           weight s' ! nat (V_index c) = alpha demo_env * target)"
    by blast
  have x: "ev_x ev = 1" using ev by (auto simp: demo_second_def demo_eval2)
  have t4: "target = 4"
    unfolding target x by (simp add: demo_moves2 demo_env_def demo_second_def weight_init_def V_index_def)
  have z: "\<forall>c. in_table c \<longrightarrow> weight demo_second ! nat (V_index c) = 0"
  proof (intro allI impI)
    fix c assume "in_table c"
    then have "nat (V_index c) < 1296" using V_index_range [of c] by linarith
    then show "weight demo_second ! nat (V_index c) = 0"
      by (simp add: demo_second_def weight_init_def)
  qed
  have "\<forall>c \<in> isomorphic (Board 0 0 0 1) ` {0 ..< 8}. weight s' ! nat (V_index c) = 1 / 100 * 4"
    using zero z t4 by (simp add: demo_second_def demo_env_def)
  then show ?thesis using demo_step1 fwd n8 len hist prior step by blast
qed

lemma sunk_moves:
  "move (Board 2 0 1 0) 0 = (- 1, Board 2 0 1 0)"
  "move (Board 2 0 1 0) 1 = (0, Board 0 2 0 1)"
  "move (Board 2 0 1 0) 2 = (- 1, Board 2 0 1 0)"
  "move (Board 2 0 1 0) 3 = (- 1, Board 2 0 1 0)"
  by (simp_all add: move_simps)

text \<open>
  Claim C5. The selection is to keep the first maximum among the legal directions and to
  select an illegal direction only when all four are illegal. The code does not keep to
  it at the before-state \<open>(2,0,1,0)\<close> with the table \<open>sunk_table\<close>: \<open>Up\<close>, \<open>Down\<close> and
  \<open>Left\<close> are illegal, \<open>Right\<close> is legal with reward 0 and afterstate \<open>(0,2,0,1)\<close>, and
  its candidate value is not above the initial \<^verbatim>\<open>v[0]\<close>. So \<^verbatim>\<open>x\<close> is still 0 after
  the loop and \<^verbatim>\<open>r[x]\<close> is \<open>-1\<close>: the illegal \<open>Up\<close> is selected while \<open>Right\<close> is legal
  (the loop of the episode then takes \<^verbatim>\<open>if (r[x] == -1) break;\<close>).
\<close>

theorem selection_keeps_illegal_up:
  "fst (move (Board 2 0 1 0) 0) = - 1 \<and> fst (move (Board 2 0 1 0) 1) = 0
   \<and> V_get sunk_table (snd (move (Board 2 0 1 0) 1)) = Some (lowest demo_env)
   \<and> evaluate demo_env sunk_table (Board 2 0 1 0) =
       Some \<lparr>ev_a = [Board 2 0 1 0, Board 0 2 0 1, Board 2 0 1 0, Board 2 0 1 0],
             ev_r = [- 1, 0, - 1, - 1],
             ev_v = [lowest demo_env, lowest demo_env, 0, 0],
             ev_x = 0\<rparr>"
  by (simp add: sunk_moves sunk_table_def eval_simps)

section \<open>Properties of the backward replay\<close>

lemma episode_history_snoc:
  "episode_history (steps @ [(bef, x, aft)]) = episode_history steps @ [bef, aft]"
  by (induction steps) auto

lemma backward_loop_replay:
  "backward_loop env w (episode_history steps) (episode_actions steps) exact
     = map_option (\<lambda>w'. (w', [], [])) (replay_spec env w exact (rev steps))"
proof (induction steps arbitrary: w exact rule: rev_induct)
  case Nil
  show ?case by (subst backward_loop.simps) (simp add: episode_actions_def)
next
  case (snoc st steps)
  obtain bef x aft where st: "st = (bef, x, aft)" by (cases st)
  have h: "episode_history (steps @ [st]) = episode_history steps @ [bef, aft]"
    by (simp add: st episode_history_snoc)
  have a: "episode_actions (steps @ [st]) = episode_actions steps @ [x]"
    by (simp add: st episode_actions_def)
  have bl: "butlast (episode_history steps @ [bef, aft]) = episode_history steps @ [bef]"
    by (simp add: butlast_append)
  show ?case
    unfolding h a
    apply (subst backward_loop.simps)
    apply (simp add: st bl snoc.IH Let_def split: option.splits)
    done
qed

lemma episode_step_history:
  assumes "episode_step env rnd s = Some (s', continue)"
    and "history s = episode_history steps" "actions s = episode_actions steps" "episode_ok steps"
  shows "if continue
         then (\<exists>st. history s' = episode_history (steps @ [st])
                 \<and> actions s' = episode_actions (steps @ [st]) \<and> episode_ok (steps @ [st]))
         else (\<exists>t. history s' = episode_history steps @ [t] \<and> actions s' = actions s)"
proof -
  obtain b k where nb: "next_board rnd (rand_count s) (cur s) = (b, k)"
    by (cases "next_board rnd (rand_count s) (cur s)")
  from assms(1) obtain ev w' where ev: "evaluate env (weight s) b = Some ev"
    and s': "(s', continue) =
      (if ev_r ev ! ev_x ev = - 1
       then (s\<lparr>weight := w', history := history s @ [b], cur := b, rand_count := k\<rparr>, False)
       else (s\<lparr>weight := w', history := history s @ [b] @ [ev_a ev ! ev_x ev],
               actions := actions s @ [ev_x ev], cur := ev_a ev ! ev_x ev,
               rand_count := k\<rparr>, True))"
    by (auto simp: episode_step_def nb Let_def split: option.splits if_splits)
  have inv: "eval_inv env (weight s) b 4 ev" using ev by (rule evaluate_inv)
  have x: "ev_x ev < 4" using inv by (simp add: eval_inv_def)
  have rx: "ev_r ev ! ev_x ev = fst (move b (int (ev_x ev)))"
    and ax: "ev_a ev ! ev_x ev = snd (move b (int (ev_x ev)))"
    using inv x by (simp_all add: eval_inv_def)
  show ?thesis
  proof (cases "ev_r ev ! ev_x ev = - 1")
    case True
    then show ?thesis using s' assms(2) by auto
  next
    case False
    let ?st = "(b, ev_x ev, ev_a ev ! ev_x ev)"
    have c: "continue" and h: "history s' = history s @ [b, ev_a ev ! ev_x ev]"
      and a: "actions s' = actions s @ [ev_x ev]"
      using s' False by auto
    have "history s' = episode_history (steps @ [?st])"
      by (simp add: h assms(2) episode_history_snoc)
    moreover have "actions s' = episode_actions (steps @ [?st])"
      by (simp add: a assms(3) episode_actions_def)
    moreover have "episode_ok (steps @ [?st])"
      using assms(4) False x rx ax by (auto simp: episode_ok_def)
    ultimately show ?thesis using c by auto
  qed
qed

lemma play_history:
  assumes "play env rnd s0 = Some s"
    and "history s0 = episode_history steps0" "actions s0 = episode_actions steps0"
    and "episode_ok steps0"
  shows "\<exists>steps t. history s = episode_history steps @ [t]
           \<and> actions s = episode_actions steps \<and> episode_ok steps"
proof -
  define P :: "'a env \<Rightarrow> (nat \<Rightarrow> nat) \<Rightarrow> 'a episode \<Rightarrow> 'a episode \<Rightarrow> bool" where
    "P = (\<lambda>env rnd s0 s. \<forall>steps0. history s0 = episode_history steps0
            \<longrightarrow> actions s0 = episode_actions steps0 \<longrightarrow> episode_ok steps0
            \<longrightarrow> (\<exists>steps t. history s = episode_history steps @ [t]
                  \<and> actions s = episode_actions steps \<and> episode_ok steps))"
  have "P env rnd s0 s"
  proof (rule play.raw_induct [where P = P, OF _ assms(1)])
    fix play' :: "'a env \<Rightarrow> (nat \<Rightarrow> nat) \<Rightarrow> 'a episode \<Rightarrow> 'a episode option"
    fix env rnd s0 s
    assume IH: "\<And>env rnd s0 s. play' env rnd s0 = Some s \<Longrightarrow> P env rnd s0 s"
      and run: "Option.bind (episode_step env rnd s0)
         (\<lambda>(s', continue). if continue then play' env rnd s' else Some s') = Some s"
    from run obtain s1 continue where
      step: "episode_step env rnd s0 = Some (s1, continue)"
      and rest: "(if continue then play' env rnd s1 else Some s1) = Some s"
      by (auto simp: bind_eq_Some_conv)
    show "P env rnd s0 s"
      unfolding P_def
    proof (intro allI impI)
      fix steps0
      assume h: "history s0 = episode_history steps0" "actions s0 = episode_actions steps0"
        "episode_ok steps0"
      show "\<exists>steps t. history s = episode_history steps @ [t]
             \<and> actions s = episode_actions steps \<and> episode_ok steps"
      proof (cases continue)
        case True
        with episode_step_history [OF step h] obtain st where
          st: "history s1 = episode_history (steps0 @ [st])"
            "actions s1 = episode_actions (steps0 @ [st])" "episode_ok (steps0 @ [st])" by auto
        from rest True have "play' env rnd s1 = Some s" by simp
        from IH [OF this] st show ?thesis unfolding P_def by blast
      next
        case False
        with episode_step_history [OF step h] obtain t where
          t: "history s1 = episode_history steps0 @ [t]" "actions s1 = actions s0" by auto
        from rest False have "s1 = s" by simp
        then show ?thesis using t h by auto
      qed
    qed
  qed
  then show ?thesis using assms(2,3,4) unfolding P_def by blast
qed


text \<open>
  Claim C6. With backward mode enabled, the replay on the history of an episode (its
  steps followed by the terminal before-state, which is popped first) is the replay of
  the specification: it starts at the last afterstate with \<open>exact = 0\<close>, computes
  \<open>delta = alpha * (exact - V(state))\<close>, trains the variants of the state with it as the
  forward mode does, and sets \<open>exact\<close> to \<open>V(state)\<close>, as updated, plus the reward of
  the recorded action on the preceding before-state, before it goes on to the next
  earlier afterstate; it leaves both vectors empty. When the loop of an episode ends,
  its history has this form, every recorded action is legal and produced the recorded
  afterstate, and the episode returns the table of that replay.
\<close>

theorem backward_replay_refines:
  assumes "backward env"
  shows "backward_replay env w (episode_history steps @ [terminal]) (episode_actions steps)
           = map_option (\<lambda>w'. (w', [], [])) (replay_spec env w 0 (rev steps))
    \<and> (play env rnd \<lparr>weight = w0, history = [], actions = [], cur = board_empty,
                      rand_count = k\<rparr> = Some s \<longrightarrow>
        (\<exists>steps terminal. history s = episode_history steps @ [terminal]
           \<and> actions s = episode_actions steps \<and> episode_ok steps
           \<and> run_episode env rnd w0 k
               = map_option (\<lambda>w'. (w', rand_count s)) (replay_spec env (weight s) 0 (rev steps))))"
proof (intro conjI impI)
  show r: "backward_replay env w (episode_history steps @ [terminal]) (episode_actions steps)
           = map_option (\<lambda>w'. (w', [], [])) (replay_spec env w 0 (rev steps))"
    for w steps terminal
    using assms by (simp add: backward_replay_def backward_loop_replay)
  assume p: "play env rnd \<lparr>weight = w0, history = [], actions = [], cur = board_empty,
                      rand_count = k\<rparr> = Some s"
  have "\<exists>steps t. history s = episode_history steps @ [t]
           \<and> actions s = episode_actions steps \<and> episode_ok steps"
    by (rule play_history [OF p, of "[]"]) (simp_all add: episode_actions_def episode_ok_def)
  then obtain steps t where st: "history s = episode_history steps @ [t]"
    "actions s = episode_actions steps" "episode_ok steps" by blast
  have "run_episode env rnd w0 k
      = map_option (\<lambda>w'. (w', rand_count s)) (replay_spec env (weight s) 0 (rev steps))"
    by (simp add: run_episode_def p st(1,2) r split: option.splits)
  then show "\<exists>steps terminal. history s = episode_history steps @ [terminal]
           \<and> actions s = episode_actions steps \<and> episode_ok steps
           \<and> run_episode env rnd w0 k
               = map_option (\<lambda>w'. (w', rand_count s)) (replay_spec env (weight s) 0 (rev steps))"
    using st by blast
qed

lemma replay_play: "play replay_env replay_rnd demo_start = Some replay_final"
  by (simp add: replay_final_def play.simps episode_step_def next_board_def replay_rnd_def demo_start_def
      board_empty_def td_forward_def replay_env_def eval_simps move_simps
      replay_steps_def episode_actions_def)


lemma replay_value:
  "\<exists>w'. replay_spec replay_env weight_init 0 (rev replay_steps) = Some w'
     \<and> w' ! nat (V_index (Board 0 2 0 0)) = 8 / 100
     \<and> w' ! nat (V_index (Board 2 0 0 0)) = 8 / 100
     \<and> w' ! nat (V_index (Board 0 0 2 0)) = 8 / 100
     \<and> w' ! nat (V_index (Board 0 0 0 2)) = 8 / 100
     \<and> w' ! nat (V_index (Board 0 3 0 0)) = 0"
  by (simp add: replay_steps_def replay_env_def eval_simps move_simps train_isomorphic_def
        V_add_def isomorphic_def upto.simps Let_def)


theorem backward_replay_refines_witness:
  "backward replay_env
   \<and> play replay_env replay_rnd demo_start = Some replay_final
   \<and> backward_replay replay_env weight_init
         (episode_history replay_steps @ [Board 1 3 2 1]) (episode_actions replay_steps)
       = map_option (\<lambda>w'. (w', [], [])) (replay_spec replay_env weight_init 0 (rev replay_steps))
   \<and> (\<exists>steps terminal. history replay_final = episode_history steps @ [terminal]
           \<and> actions replay_final = episode_actions steps \<and> episode_ok steps
           \<and> run_episode replay_env replay_rnd weight_init 0
               = map_option (\<lambda>w'. (w', rand_count replay_final))
                   (replay_spec replay_env (weight replay_final) 0 (rev steps)))
   \<and> (\<exists>w'. replay_spec replay_env weight_init 0 (rev replay_steps) = Some w'
         \<and> w' ! nat (V_index (Board 0 2 0 0)) = 8 / 100)"
proof -
  have bw: "backward replay_env" by (simp add: replay_env_def)
  have p: "play replay_env replay_rnd \<lparr>weight = weight_init, history = [], actions = [],
      cur = board_empty, rand_count = 0\<rparr> = Some replay_final"
    using replay_play by (simp add: demo_start_def)
  from backward_replay_refines [OF bw, of weight_init replay_steps "Board 1 3 2 1"
      replay_rnd weight_init 0 replay_final] p replay_play bw replay_value
  show ?thesis by blast
qed

end
